theory Spec2Isabelle
  imports Main "HOL-Library.Word"
begin

unbundle bit_operations_syntax

section \<open>Bytes, fixed-width and variable-width integers\<close>

text \<open>
  A \<open>Slice\<close> or a \<open>std::string\<close> is a sequence of bytes.  The 32-bit unsigned
  integers of the source (\<open>uint32_t\<close>) are 32-bit words, so that \<open>+\<close> wraps around
  as it does in C++.  Sizes (\<open>size_t\<close>, \<open>uint64_t\<close> file offsets) are natural
  numbers; every narrowing of a size to \<open>uint32_t\<close> is written out with \<open>of_nat\<close>.
\<close>

type_synonym byte = "8 word"
type_synonym bytes = "byte list"
type_synonym u32 = "32 word"

text \<open>
  Modelled from the spec: \<open>util/coding.cc\<close> is not part of the sources at hand.  The
  spec fixes the layout: all integers are little-endian, and varints use seven bits per
  byte with the most significant bit as continuation flag.
\<close>

definition EncodeFixed32 :: "u32 \<Rightarrow> bytes" where
  "EncodeFixed32 w =
     [of_nat (unat w mod 256), of_nat (unat w div 256 mod 256),
      of_nat (unat w div 65536 mod 256), of_nat (unat w div 16777216 mod 256)]"

text \<open>\<open>DecodeFixed32 p\<close> reads the four bytes at the front of \<open>p\<close> (the bytes a pointer
  points at).  Every call of the source reads inside the buffer; the last equation is
  never reached by them.\<close>

fun DecodeFixed32 :: "bytes \<Rightarrow> u32" where
  "DecodeFixed32 (b0 # b1 # b2 # b3 # rest) =
     of_nat (unat b0 + 256 * unat b1 + 65536 * unat b2 + 16777216 * unat b3)"
| "DecodeFixed32 _ = 0"

function PutVarint :: "nat \<Rightarrow> bytes" where
  "PutVarint v = (if v < 128 then [of_nat v] else of_nat (v mod 128 + 128) # PutVarint (v div 128))"
  by pat_completeness auto
termination
  by (relation "measure id") auto

declare PutVarint.simps [simp del]

definition PutVarint32 :: "u32 \<Rightarrow> bytes" where
  "PutVarint32 v = PutVarint (unat v)"

definition PutVarint64 :: "nat \<Rightarrow> bytes" where
  "PutVarint64 v = PutVarint (v mod 2 ^ 64)"

section \<open>The Bloom filter policy (\<open>util/bloom.cc\<close>)\<close>

text \<open>
  \<open>Hash\<close> (\<open>util/hash.cc\<close>) is not among the sources; it is a parameter
  \<open>hash data seed\<close> of everything below.
\<close>

type_synonym hash_fn = "bytes \<Rightarrow> u32 \<Rightarrow> u32"

definition BloomHash :: "hash_fn \<Rightarrow> bytes \<Rightarrow> u32" where
  "BloomHash hash key = hash key 0xbc9f1d34"

text \<open>The private fields \<open>bits_per_key_\<close> and \<open>k_\<close> of the class, both \<open>size_t\<close> (an
  identifier cannot end in an underscore here, so private members carry a prefix instead).\<close>

record BloomFilterPolicy =
  bloom_bits_per_key :: nat
  bloom_k :: nat

text \<open>
  The constructor.  Its argument is a number of bits, a non-negative \<open>int\<close> of the
  source.  The source computes \<open>static_cast<size_t>(bits_per_key * 0.69)\<close> in double
  precision; for a non-negative 32-bit argument the truncated product, once clamped to
  the range 1..30, is the truncated exact product \<open>bits_per_key * 69 / 100\<close>, which is what
  is written here.
\<close>

definition NewBloomFilterPolicy :: "nat \<Rightarrow> BloomFilterPolicy" where
  "NewBloomFilterPolicy bits_per_key =
     (let k0 = bits_per_key * 69 div 100;
          k1 = (if k0 < 1 then 1 else k0);
          k2 = (if k1 > 30 then 30 else k1)
      in \<lparr> bloom_bits_per_key = bits_per_key, bloom_k = k2 \<rparr>)"

text \<open>
  The inner loop of \<open>CreateFilter\<close>: \<open>j\<close> counts the probes that remain.  \<open>array\<close>
  of the source points at \<open>dst[init_size]\<close>; here the whole of \<open>dst\<close> is passed with
  \<open>init_size\<close>.
\<close>

fun CreateFilter_probes :: "nat \<Rightarrow> u32 \<Rightarrow> u32 \<Rightarrow> nat \<Rightarrow> nat \<Rightarrow> bytes \<Rightarrow> bytes" where
  "CreateFilter_probes 0 h delta bits init_size dst = dst"
| "CreateFilter_probes (Suc j) h delta bits init_size dst =
     (let bitpos = unat h mod bits;
          i = init_size + bitpos div 8;
          dst' = dst[i := (dst ! i) OR push_bit (bitpos mod 8) 1]
      in CreateFilter_probes j (h + delta) delta bits init_size dst')"

definition CreateFilter_key :: "hash_fn \<Rightarrow> nat \<Rightarrow> nat \<Rightarrow> nat \<Rightarrow> bytes \<Rightarrow> bytes \<Rightarrow> bytes" where
  "CreateFilter_key hash k bits init_size dst key =
     (let h = BloomHash hash key;
          delta = drop_bit 17 h OR push_bit 15 h
      in CreateFilter_probes k h delta bits init_size dst)"

definition Bloom_CreateFilter :: "hash_fn \<Rightarrow> BloomFilterPolicy \<Rightarrow> bytes list \<Rightarrow> bytes \<Rightarrow> bytes" where
  "Bloom_CreateFilter hash p keys dst =
     (let n = length keys;
          bits0 = n * bloom_bits_per_key p;
          bits1 = (if bits0 < 64 then 64 else bits0);
          nbytes = (bits1 + 7) div 8;
          bits = nbytes * 8;
          init_size = length dst;
          dst1 = dst @ replicate nbytes 0;
          dst2 = dst1 @ [of_nat (bloom_k p)]
      in foldl (CreateFilter_key hash (bloom_k p) bits init_size) dst2 keys)"

text \<open>The probe loop of \<open>KeyMayMatch\<close>; \<open>j\<close> counts the probes that remain.\<close>

fun KeyMayMatch_probes :: "nat \<Rightarrow> u32 \<Rightarrow> u32 \<Rightarrow> nat \<Rightarrow> bytes \<Rightarrow> bool" where
  "KeyMayMatch_probes 0 h delta bits array = True"
| "KeyMayMatch_probes (Suc j) h delta bits array =
     (let bitpos = unat h mod bits
      in if (array ! (bitpos div 8)) AND push_bit (bitpos mod 8) 1 = 0 then False
         else KeyMayMatch_probes j (h + delta) delta bits array)"

definition Bloom_KeyMayMatch :: "hash_fn \<Rightarrow> bytes \<Rightarrow> bytes \<Rightarrow> bool" where
  "Bloom_KeyMayMatch hash key bloom_filter =
     (let len = length bloom_filter
      in if len < 2 then False
         else let array = bloom_filter;
                  bits = (len - 1) * 8;
                  k = unat (array ! (len - 1))
              in if k > 30 then True
                 else let h = BloomHash hash key;
                          delta = drop_bit 17 h OR push_bit 15 h
                      in KeyMayMatch_probes k h delta bits array)"

section \<open>The filter policy interface and the filter block (\<open>table/filter_block.cc\<close>)\<close>

text \<open>
  \<open>FilterPolicy\<close> is the abstract class of \<open>leveldb/filter_policy.h\<close>: a name and two
  virtual functions.  \<open>CreateFilter keys dst\<close> returns the new contents of \<open>*dst\<close>.
\<close>

record FilterPolicy =
  Name :: bytes
  CreateFilter :: "bytes list \<Rightarrow> bytes \<Rightarrow> bytes"
  KeyMayMatch :: "bytes \<Rightarrow> bytes \<Rightarrow> bool"

text \<open>The Bloom policy as an instance of the interface; its name is
  \<open>leveldb.BuiltinBloomFilter2\<close>.\<close>

definition BloomFilterPolicy_Name :: bytes where
  "BloomFilterPolicy_Name =
     [0x6c, 0x65, 0x76, 0x65, 0x6c, 0x64, 0x62, 0x2e, 0x42, 0x75, 0x69, 0x6c, 0x74, 0x69, 0x6e,
      0x42, 0x6c, 0x6f, 0x6f, 0x6d, 0x46, 0x69, 0x6c, 0x74, 0x65, 0x72, 0x32]"

definition BloomFilterPolicy_policy :: "hash_fn \<Rightarrow> BloomFilterPolicy \<Rightarrow> FilterPolicy" where
  "BloomFilterPolicy_policy hash p =
     \<lparr> Name = BloomFilterPolicy_Name,
       CreateFilter = Bloom_CreateFilter hash p,
       KeyMayMatch = Bloom_KeyMayMatch hash \<rparr>"

definition kFilterBaseLg :: nat where
  "kFilterBaseLg = 11"

definition kFilterBase :: nat where
  "kFilterBase = 2 ^ kFilterBaseLg"

text \<open>
  The members \<open>policy_\<close>, \<open>keys_\<close>, \<open>start_\<close>, \<open>result_\<close> and \<open>filter_offsets_\<close> of
  \<open>FilterBlockBuilder\<close>.  \<open>tmp_keys_\<close> is empty between calls and is a local value of
  \<open>GenerateFilter\<close> here.  \<open>filter_offsets_\<close> is a vector of \<open>uint32_t\<close>.
\<close>

record FilterBlockBuilder =
  fb_policy :: FilterPolicy
  fb_keys :: bytes
  fb_start :: "nat list"
  fb_result :: bytes
  fb_filter_offsets :: "u32 list"

definition FilterBlockBuilder_new :: "FilterPolicy \<Rightarrow> FilterBlockBuilder" where
  "FilterBlockBuilder_new policy =
     \<lparr> fb_policy = policy, fb_keys = [], fb_start = [], fb_result = [], fb_filter_offsets = [] \<rparr>"

definition GenerateFilter :: "FilterBlockBuilder \<Rightarrow> FilterBlockBuilder" where
  "GenerateFilter fb =
     (let num_keys = length (fb_start fb)
      in if num_keys = 0
         then fb\<lparr> fb_filter_offsets := fb_filter_offsets fb @ [of_nat (length (fb_result fb))] \<rparr>
         else
           let start = fb_start fb @ [length (fb_keys fb)];
               tmp_keys = map (\<lambda>i. take (start ! (i + 1) - start ! i) (drop (start ! i) (fb_keys fb)))
                              [0 ..< num_keys];
               offsets = fb_filter_offsets fb @ [of_nat (length (fb_result fb))];
               result = CreateFilter (fb_policy fb) tmp_keys (fb_result fb)
           in fb\<lparr> fb_filter_offsets := offsets, fb_result := result, fb_keys := [], fb_start := [] \<rparr>)"

text \<open>The \<open>while\<close> loop of \<open>StartBlock\<close>.\<close>

function StartBlock_loop :: "nat \<Rightarrow> FilterBlockBuilder \<Rightarrow> FilterBlockBuilder" where
  "StartBlock_loop filter_index fb =
     (if filter_index > length (fb_filter_offsets fb)
      then StartBlock_loop filter_index (GenerateFilter fb)
      else fb)"
  by pat_completeness auto
termination
  by (relation "measure (\<lambda>(filter_index, fb). filter_index - length (fb_filter_offsets fb))")
     (auto simp: GenerateFilter_def Let_def)

declare StartBlock_loop.simps [simp del]

text \<open>\<open>None\<close> is the failed \<open>assert\<close>.\<close>

definition StartBlock :: "FilterBlockBuilder \<Rightarrow> nat \<Rightarrow> FilterBlockBuilder option" where
  "StartBlock fb block_offset =
     (let filter_index = block_offset div kFilterBase
      in if \<not> filter_index \<ge> length (fb_filter_offsets fb) then None
         else Some (StartBlock_loop filter_index fb))"

definition AddKey :: "FilterBlockBuilder \<Rightarrow> bytes \<Rightarrow> FilterBlockBuilder" where
  "AddKey fb key = fb\<lparr> fb_start := fb_start fb @ [length (fb_keys fb)], fb_keys := fb_keys fb @ key \<rparr>"

text \<open>\<open>Finish\<close> returns the builder it leaves behind and the slice it returns.\<close>

definition FilterBlockBuilder_Finish :: "FilterBlockBuilder \<Rightarrow> FilterBlockBuilder \<times> bytes" where
  "FilterBlockBuilder_Finish fb =
     (let fb1 = (if fb_start fb \<noteq> [] then GenerateFilter fb else fb);
          array_offset = (of_nat (length (fb_result fb1)) :: u32);
          result1 = fb_result fb1 @ concat (map EncodeFixed32 (fb_filter_offsets fb1));
          result2 = result1 @ EncodeFixed32 array_offset;
          result3 = result2 @ [of_nat kFilterBaseLg]
      in (fb1\<lparr> fb_result := result3 \<rparr>, result3))"

text \<open>
  The reader.  \<open>fr_data\<close> is the block \<open>data_\<close> points at and \<open>fr_offset\<close> the distance
  \<open>offset_ - data_\<close>; both are meaningful only when \<open>fr_num\<close> is positive, as the pointers of
  the source are.

  \<open>base_lg_\<close> is a \<open>size_t\<close> that the constructor assigns the last byte of the block, a
  \<open>char\<close>: the byte is read as a signed number and converted to 64 bits, so \<open>0x8b\<close> is
  stored as \<open>2 ^ 64 - 117\<close>.

  \<open>block_offset >> base_lg_\<close> shifts a \<open>uint64_t\<close>.  For a count below 64 this is division
  by \<open>2 ^ count\<close>.  For a larger count the language leaves the shift undefined; the shift
  instruction that the compilers emit uses the low six bits of the count, and
  \<open>shift_right\<close> does the same.
\<close>

record FilterBlockReader =
  fr_policy :: FilterPolicy
  fr_data :: bytes
  fr_offset :: nat
  fr_num :: nat
  fr_base_lg :: "64 word"

definition char_to_size_t :: "byte \<Rightarrow> 64 word" where
  "char_to_size_t c = of_int (sint c)"

definition shift_right :: "nat \<Rightarrow> 64 word \<Rightarrow> nat" where
  "shift_right x count = x div 2 ^ (unat count mod 64)"

definition FilterBlockReader_new :: "FilterPolicy \<Rightarrow> bytes \<Rightarrow> FilterBlockReader" where
  "FilterBlockReader_new policy contents =
     (let rd = \<lparr> fr_policy = policy, fr_data = [], fr_offset = 0, fr_num = 0, fr_base_lg = 0 \<rparr>;
          n = length contents
      in if n < 5 then rd
         else
           let rd1 = rd\<lparr> fr_base_lg := char_to_size_t (contents ! (n - 1)) \<rparr>;
               last_word = DecodeFixed32 (drop (n - 5) contents)
           in if unat last_word > n - 5 then rd1
              else rd1\<lparr> fr_data := contents, fr_offset := unat last_word,
                        fr_num := (n - 5 - unat last_word) div 4 \<rparr>)"

definition FilterBlockReader_KeyMayMatch :: "FilterBlockReader \<Rightarrow> nat \<Rightarrow> bytes \<Rightarrow> bool" where
  "FilterBlockReader_KeyMayMatch rd block_offset key =
     (let index = shift_right block_offset (fr_base_lg rd)
      in if index < fr_num rd
         then
           let start = DecodeFixed32 (drop (fr_offset rd + index * 4) (fr_data rd));
               limit = DecodeFixed32 (drop (fr_offset rd + index * 4 + 4) (fr_data rd))
           in if start \<le> limit \<and> unat limit \<le> fr_offset rd
              then KeyMayMatch (fr_policy rd) key
                     (take (unat limit - unat start) (drop (unat start) (fr_data rd)))
              else if start = limit then False
              else True
         else True)"

section \<open>Options, comparator and the block builder\<close>

text \<open>
  \<open>Comparator\<close>, \<open>Options\<close> and \<open>CompressionType\<close> are declared in headers that are not
  among the sources (\<open>leveldb/comparator.h\<close>, \<open>leveldb/options.h\<close>); they are records of
  the members the code uses.  \<open>FindShortestSeparator start limit\<close> and
  \<open>FindShortSuccessor key\<close> return the new value of the string they change in place.
\<close>

record Comparator =
  Compare :: "bytes \<Rightarrow> bytes \<Rightarrow> int"
  FindShortestSeparator :: "bytes \<Rightarrow> bytes \<Rightarrow> bytes"
  FindShortSuccessor :: "bytes \<Rightarrow> bytes"

datatype CompressionType = kNoCompression | kSnappyCompression

fun CompressionType_byte :: "CompressionType \<Rightarrow> byte" where
  "CompressionType_byte kNoCompression = 0"
| "CompressionType_byte kSnappyCompression = 1"

record Options =
  comparator :: Comparator
  block_size :: nat
  block_restart_interval :: int
  compression :: CompressionType
  filter_policy :: "FilterPolicy option"

text \<open>
  The members \<open>buffer_\<close>, \<open>restarts_\<close>, \<open>counter_\<close>, \<open>finished_\<close> and \<open>last_key_\<close> of
  \<open>BlockBuilder\<close> (\<open>table/block_builder.h\<close>).  The member \<open>options_\<close> points at options
  owned by the table builder; the options it points at are an argument of \<open>Add\<close>.
\<close>

record BlockBuilder =
  bb_buffer :: bytes
  bb_restarts :: "u32 list"
  bb_counter :: int
  bb_finished :: bool
  bb_last_key :: bytes

text \<open>
  Modelled from the spec: the bodies of the constructor, \<open>Reset\<close>, \<open>Finish\<close> and
  \<open>CurrentSizeEstimate\<close> (\<open>table/block_builder.cc\<close>) are not among the sources.  The spec:
  reset discards the buffer, sets restarts to \<open>[0]\<close>, counter to 0, last key to empty and
  finished to false; finish appends each restart as little-endian u32, then the restart
  count as u32, sets finished and returns the buffer; the size estimate is
  \<open>len(buffer) + 4 * (restarts.len + 1)\<close>.
\<close>

definition BlockBuilder_Reset :: "BlockBuilder \<Rightarrow> BlockBuilder" where
  "BlockBuilder_Reset b =
     b\<lparr> bb_buffer := [], bb_restarts := [0], bb_counter := 0, bb_finished := False,
        bb_last_key := [] \<rparr>"

definition BlockBuilder_new :: BlockBuilder where
  "BlockBuilder_new =
     \<lparr> bb_buffer = [], bb_restarts = [0], bb_counter = 0, bb_finished = False, bb_last_key = [] \<rparr>"

definition BlockBuilder_Finish :: "BlockBuilder \<Rightarrow> BlockBuilder \<times> bytes" where
  "BlockBuilder_Finish b =
     (let buffer = bb_buffer b @ concat (map EncodeFixed32 (bb_restarts b))
                     @ EncodeFixed32 (of_nat (length (bb_restarts b)))
      in (b\<lparr> bb_buffer := buffer, bb_finished := True \<rparr>, buffer))"

definition CurrentSizeEstimate :: "BlockBuilder \<Rightarrow> nat" where
  "CurrentSizeEstimate b = length (bb_buffer b) + 4 * (length (bb_restarts b) + 1)"

definition BlockBuilder_empty :: "BlockBuilder \<Rightarrow> bool" where
  "BlockBuilder_empty b = (bb_buffer b = [])"

text \<open>The \<open>while\<close> loop of \<open>BlockBuilder::Add\<close> that counts the bytes shared with the
  previous key.\<close>

function shared_loop :: "bytes \<Rightarrow> bytes \<Rightarrow> nat \<Rightarrow> nat \<Rightarrow> nat" where
  "shared_loop last_key_piece key min_length shared =
     (if shared < min_length \<and> last_key_piece ! shared = key ! shared
      then shared_loop last_key_piece key min_length (shared + 1)
      else shared)"
  by pat_completeness auto
termination
  by (relation "measure (\<lambda>(last_key_piece, key, min_length, shared). min_length - shared)") auto

declare shared_loop.simps [simp del]

text \<open>\<open>BlockBuilder::Add\<close>; \<open>None\<close> is a failed \<open>assert\<close>.\<close>

definition BlockBuilder_Add :: "Options \<Rightarrow> BlockBuilder \<Rightarrow> bytes \<Rightarrow> bytes \<Rightarrow> BlockBuilder option" where
  "BlockBuilder_Add opts b key val =
     (let last_key_piece = bb_last_key b
      in if bb_finished b then None
         else if \<not> bb_counter b \<le> block_restart_interval opts then None
         else if \<not> (bb_buffer b = [] \<or> Compare (comparator opts) key last_key_piece > 0) then None
         else
           let (shared, b1) =
                 (if bb_counter b < block_restart_interval opts
                  then (shared_loop last_key_piece key (min (length last_key_piece) (length key)) 0, b)
                  else (0, b\<lparr> bb_restarts := bb_restarts b @ [of_nat (length (bb_buffer b))],
                               bb_counter := 0 \<rparr>));
               non_shared = length key - shared;
               buffer1 = bb_buffer b1 @ PutVarint32 (of_nat shared) @ PutVarint32 (of_nat non_shared)
                           @ PutVarint32 (of_nat (length val));
               buffer2 = buffer1 @ take non_shared (drop shared key) @ val;
               last_key' = take shared (bb_last_key b1) @ take non_shared (drop shared key)
           in if last_key' \<noteq> key then None
              else Some (b1\<lparr> bb_buffer := buffer2, bb_last_key := last_key',
                             bb_counter := bb_counter b1 + 1 \<rparr>))"

section \<open>The table builder\<close>

text \<open>
  What the table builder calls outside the sources at hand is a parameter: the CRC
  (\<open>util/crc32c.h\<close>) and the compressor (\<open>port::Snappy_Compress\<close>, which returns false
  when it gives up).
\<close>

record Env =
  crc32c_Value :: "bytes \<Rightarrow> u32"
  crc32c_Extend :: "u32 \<Rightarrow> bytes \<Rightarrow> u32"
  Snappy_Compress :: "bytes \<Rightarrow> bytes option"

text \<open>Modelled from the spec: the mask of a CRC is
  \<open>((c >> 15) | (c << 17)) + 0xa282ead8\<close>.\<close>

definition crc32c_Mask :: "u32 \<Rightarrow> u32" where
  "crc32c_Mask crc = (drop_bit 15 crc OR push_bit 17 crc) + 0xa282ead8"

datatype Status = OK | IOError

text \<open>
  The file sink (\<open>WritableFile\<close> of \<open>leveldb/env.h\<close>).  \<open>appended\<close> lists, in order, every
  byte string handed to \<open>Append\<close>.  \<open>outcomes\<close> lists what the coming calls of the sink
  will answer (true for success); once the list is used up every call succeeds.
\<close>

record WritableFile =
  appended :: "bytes list"
  outcomes :: "bool list"

definition File_Append :: "WritableFile \<Rightarrow> bytes \<Rightarrow> Status \<times> WritableFile" where
  "File_Append f data =
     (case outcomes f of
        [] \<Rightarrow> (OK, f\<lparr> appended := appended f @ [data] \<rparr>)
      | success # rest \<Rightarrow>
          (if success then OK else IOError, f\<lparr> appended := appended f @ [data], outcomes := rest \<rparr>))"

definition File_Flush :: "WritableFile \<Rightarrow> Status \<times> WritableFile" where
  "File_Flush f =
     (case outcomes f of
        [] \<Rightarrow> (OK, f)
      | success # rest \<Rightarrow> (if success then OK else IOError, f\<lparr> outcomes := rest \<rparr>))"

text \<open>
  Modelled from the spec: \<open>BlockHandle\<close> and \<open>Footer\<close> (\<open>table/format.h\<close>) are not
  among the sources.  A handle is a pair of u64, encoded as two varint64; a handle that was
  never set holds all-ones.  The footer is the meta-index handle, the index handle, zero
  padding to 40 bytes and the 8-byte little-endian magic number \<open>0xdb4775248b80fb57\<close>.
  The block trailer has 5 bytes.
\<close>

record BlockHandle =
  bh_offset :: nat
  bh_size :: nat

definition BlockHandle_new :: BlockHandle where
  "BlockHandle_new = \<lparr> bh_offset = 2 ^ 64 - 1, bh_size = 2 ^ 64 - 1 \<rparr>"

definition EncodeTo :: "BlockHandle \<Rightarrow> bytes" where
  "EncodeTo h = PutVarint64 (bh_offset h) @ PutVarint64 (bh_size h)"

definition Footer_EncodeTo :: "BlockHandle \<Rightarrow> BlockHandle \<Rightarrow> bytes" where
  "Footer_EncodeTo metaindex_handle index_handle =
     take 40 (EncodeTo metaindex_handle @ EncodeTo index_handle @ replicate 40 0)
       @ EncodeFixed32 0x8b80fb57 @ EncodeFixed32 0xdb477524"

definition kBlockTrailerSize :: nat where
  "kBlockTrailerSize = 5"

text \<open>\<open>struct TableBuilder::Rep\<close>; its member \<open>file\<close> is \<open>rep_file\<close> here.\<close>

record Rep =
  options :: Options
  index_block_options :: Options
  rep_file :: WritableFile
  offset :: nat
  status :: Status
  data_block :: BlockBuilder
  index_block :: BlockBuilder
  last_key :: bytes
  num_entries :: int
  closed :: bool
  filter_block :: "FilterBlockBuilder option"
  pending_index_entry :: bool
  pending_handle :: BlockHandle
  compressed_output :: bytes

definition Rep_new :: "Options \<Rightarrow> WritableFile \<Rightarrow> Rep" where
  "Rep_new opt f =
     \<lparr> options = opt,
       index_block_options = opt\<lparr> block_restart_interval := 1 \<rparr>,
       rep_file = f,
       offset = 0,
       status = OK,
       data_block = BlockBuilder_new,
       index_block = BlockBuilder_new,
       last_key = [],
       num_entries = 0,
       closed = False,
       filter_block = (case filter_policy opt of None \<Rightarrow> None
                       | Some policy \<Rightarrow> Some (FilterBlockBuilder_new policy)),
       pending_index_entry = False,
       pending_handle = BlockHandle_new,
       compressed_output = [] \<rparr>"

text \<open>The constructor of \<open>TableBuilder\<close>; throughout, \<open>None\<close> is a failed \<open>assert\<close>.\<close>

definition TableBuilder_new :: "Options \<Rightarrow> WritableFile \<Rightarrow> Rep option" where
  "TableBuilder_new opt f =
     (let r = Rep_new opt f
      in case filter_block r of
           None \<Rightarrow> Some r
         | Some fb \<Rightarrow>
             (case StartBlock fb 0 of
                None \<Rightarrow> None
              | Some fb' \<Rightarrow> Some (r\<lparr> filter_block := Some fb' \<rparr>)))"

definition ok :: "Rep \<Rightarrow> bool" where
  "ok r = (status r = OK)"

definition WriteRawBlock :: "Env \<Rightarrow> Rep \<Rightarrow> bytes \<Rightarrow> CompressionType \<Rightarrow> Rep \<times> BlockHandle" where
  "WriteRawBlock env r block_contents type =
     (let handle = \<lparr> bh_offset = offset r, bh_size = length block_contents \<rparr>;
          (st, f) = File_Append (rep_file r) block_contents;
          r1 = r\<lparr> status := st, rep_file := f \<rparr>
      in if status r1 = OK
         then
           let trailer0 = CompressionType_byte type;
               crc = crc32c_Value env block_contents;
               crc1 = crc32c_Extend env crc [trailer0];
               trailer = trailer0 # EncodeFixed32 (crc32c_Mask crc1);
               (st2, f2) = File_Append (rep_file r1) trailer;
               r2 = r1\<lparr> status := st2, rep_file := f2 \<rparr>
           in if status r2 = OK
              then (r2\<lparr> offset := offset r2 + (length block_contents + kBlockTrailerSize) \<rparr>, handle)
              else (r2, handle)
         else (r1, handle))"

text \<open>
  \<open>WriteBlock\<close> is called with a pointer to one of the block builders; it returns the
  builder it leaves behind next to the new \<open>Rep\<close> and the handle it has filled in.
\<close>

definition WriteBlock :: "Env \<Rightarrow> Rep \<Rightarrow> BlockBuilder \<Rightarrow> (Rep \<times> BlockBuilder \<times> BlockHandle) option" where
  "WriteBlock env r block =
     (if \<not> ok r then None
      else
        let (block1, raw) = BlockBuilder_Finish block;
            (r0, block_contents, type) =
              (case compression (options r) of
                 kNoCompression \<Rightarrow> (r, raw, kNoCompression)
               | kSnappyCompression \<Rightarrow>
                   (case Snappy_Compress env raw of
                      Some compressed \<Rightarrow>
                        if length compressed < length raw - length raw div 8
                        then (r\<lparr> compressed_output := compressed \<rparr>, compressed, kSnappyCompression)
                        else (r\<lparr> compressed_output := compressed \<rparr>, raw, kNoCompression)
                    | None \<Rightarrow> (r, raw, kNoCompression)));
            (r1, handle) = WriteRawBlock env r0 block_contents type;
            r2 = r1\<lparr> compressed_output := [] \<rparr>
        in Some (r2, BlockBuilder_Reset block1, handle))"

definition Flush :: "Env \<Rightarrow> Rep \<Rightarrow> Rep option" where
  "Flush env r =
     (if closed r then None
      else if \<not> ok r then Some r
      else if BlockBuilder_empty (data_block r) then Some r
      else if pending_index_entry r then None
      else
        case WriteBlock env r (data_block r) of
          None \<Rightarrow> None
        | Some (r1, block, handle) \<Rightarrow>
            (let r2 = r1\<lparr> data_block := block, pending_handle := handle \<rparr>;
                 r3 = (if ok r2
                       then let (st, f) = File_Flush (rep_file r2)
                            in r2\<lparr> pending_index_entry := True, status := st, rep_file := f \<rparr>
                       else r2)
             in (case filter_block r3 of
                   None \<Rightarrow> Some r3
                 | Some fb \<Rightarrow>
                     (case StartBlock fb (offset r3) of
                        None \<Rightarrow> None
                      | Some fb' \<Rightarrow> Some (r3\<lparr> filter_block := Some fb' \<rparr>)))))"

definition Add :: "Env \<Rightarrow> Rep \<Rightarrow> bytes \<Rightarrow> bytes \<Rightarrow> Rep option" where
  "Add env r key val =
     (if closed r then None
      else if \<not> ok r then Some r
      else if num_entries r > 0 \<and> \<not> Compare (comparator (options r)) key (last_key r) > 0 then None
      else
        case (if pending_index_entry r
              then if \<not> BlockBuilder_empty (data_block r) then None
                   else
                     (let r1 = r\<lparr> last_key := FindShortestSeparator (comparator (options r)) (last_key r) key \<rparr>;
                          handle_encoding = EncodeTo (pending_handle r1)
                      in (case BlockBuilder_Add (index_block_options r1) (index_block r1) (last_key r1)
                                 handle_encoding of
                            None \<Rightarrow> None
                          | Some block \<Rightarrow> Some (r1\<lparr> index_block := block, pending_index_entry := False \<rparr>)))
              else Some r) of
          None \<Rightarrow> None
        | Some r2 \<Rightarrow>
            (let r3 = (case filter_block r2 of
                         None \<Rightarrow> r2
                       | Some fb \<Rightarrow> r2\<lparr> filter_block := Some (AddKey fb key) \<rparr>);
                 r4 = r3\<lparr> last_key := key, num_entries := num_entries r3 + 1 \<rparr>
             in (case BlockBuilder_Add (options r4) (data_block r4) key val of
                   None \<Rightarrow> None
                 | Some block \<Rightarrow>
                     (let r5 = r4\<lparr> data_block := block \<rparr>;
                          estimated_block_size = CurrentSizeEstimate (data_block r5)
                      in if estimated_block_size \<ge> block_size (options r5) then Flush env r5
                         else Some r5))))"

text \<open>The key of the meta-index entry starts with \<open>filter.\<close>.\<close>

definition filter_prefix :: bytes where
  "filter_prefix = [0x66, 0x69, 0x6c, 0x74, 0x65, 0x72, 0x2e]"

text \<open>
  \<open>Finish\<close> in its five steps: the filter block, the meta-index block, the index block
  and the footer, after the flush.  The status it returns is the \<open>status\<close> of the \<open>Rep\<close>
  it leaves behind.
\<close>

definition Finish_filter :: "Env \<Rightarrow> Rep \<Rightarrow> Rep \<times> BlockHandle" where
  "Finish_filter env r =
     (case filter_block r of
        Some fb \<Rightarrow>
          if ok r
          then let (fb', contents) = FilterBlockBuilder_Finish fb;
                   (r1, handle) = WriteRawBlock env (r\<lparr> filter_block := Some fb' \<rparr>) contents kNoCompression
               in (r1, handle)
          else (r, BlockHandle_new)
      | None \<Rightarrow> (r, BlockHandle_new))"

definition Finish_metaindex :: "Env \<Rightarrow> Rep \<Rightarrow> BlockHandle \<Rightarrow> (Rep \<times> BlockHandle) option" where
  "Finish_metaindex env r filter_block_handle =
     (if ok r
      then
        case (case filter_block r of
                None \<Rightarrow> Some BlockBuilder_new
              | Some fb \<Rightarrow>
                  BlockBuilder_Add (options r) BlockBuilder_new
                    (filter_prefix @ Name (fb_policy fb)) (EncodeTo filter_block_handle)) of
          None \<Rightarrow> None
        | Some meta_index_block \<Rightarrow>
            (case WriteBlock env r meta_index_block of
               None \<Rightarrow> None
             | Some (r1, block, handle) \<Rightarrow> Some (r1, handle))
      else Some (r, BlockHandle_new))"

definition Finish_index :: "Env \<Rightarrow> Rep \<Rightarrow> (Rep \<times> BlockHandle) option" where
  "Finish_index env r =
     (if ok r
      then
        case (if pending_index_entry r
              then
                (let r1 = r\<lparr> last_key := FindShortSuccessor (comparator (options r)) (last_key r) \<rparr>;
                     handle_encoding = EncodeTo (pending_handle r1)
                 in (case BlockBuilder_Add (index_block_options r1) (index_block r1) (last_key r1)
                            handle_encoding of
                       None \<Rightarrow> None
                     | Some block \<Rightarrow> Some (r1\<lparr> index_block := block, pending_index_entry := False \<rparr>)))
              else Some r) of
          None \<Rightarrow> None
        | Some r2 \<Rightarrow>
            (case WriteBlock env r2 (index_block r2) of
               None \<Rightarrow> None
             | Some (r3, block, handle) \<Rightarrow> Some (r3\<lparr> index_block := block \<rparr>, handle))
      else Some (r, BlockHandle_new))"

definition Finish_footer :: "Rep \<Rightarrow> BlockHandle \<Rightarrow> BlockHandle \<Rightarrow> Rep" where
  "Finish_footer r metaindex_block_handle index_block_handle =
     (if ok r
      then
        let footer_encoding = Footer_EncodeTo metaindex_block_handle index_block_handle;
            (st, f) = File_Append (rep_file r) footer_encoding;
            r1 = r\<lparr> status := st, rep_file := f \<rparr>
        in if status r1 = OK then r1\<lparr> offset := offset r1 + length footer_encoding \<rparr> else r1
      else r)"

definition Finish :: "Env \<Rightarrow> Rep \<Rightarrow> Rep option" where
  "Finish env r =
     (case Flush env r of
        None \<Rightarrow> None
      | Some r1 \<Rightarrow>
          if closed r1 then None
          else
            (let r2 = r1\<lparr> closed := True \<rparr>;
                 (r3, filter_block_handle) = Finish_filter env r2
             in (case Finish_metaindex env r3 filter_block_handle of
                   None \<Rightarrow> None
                 | Some (r4, metaindex_block_handle) \<Rightarrow>
                     (case Finish_index env r4 of
                        None \<Rightarrow> None
                      | Some (r5, index_block_handle) \<Rightarrow>
                          Some (Finish_footer r5 metaindex_block_handle index_block_handle)))))"

definition FileSize :: "Rep \<Rightarrow> nat" where
  "FileSize r = offset r"

text \<open>
  The calls a client makes on a table builder before \<open>Finish\<close>, and a builder driven
  through a list of them.
\<close>

datatype op = OpAdd bytes bytes | OpFlush

fun apply_op :: "Env \<Rightarrow> Rep \<Rightarrow> op \<Rightarrow> Rep option" where
  "apply_op env r (OpAdd key val) = Add env r key val"
| "apply_op env r OpFlush = Flush env r"

fun run :: "Env \<Rightarrow> Rep \<Rightarrow> op list \<Rightarrow> Rep option" where
  "run env r [] = Some r"
| "run env r (x # xs) = (case apply_op env r x of None \<Rightarrow> None | Some r' \<Rightarrow> run env r' xs)"

definition build :: "Env \<Rightarrow> Options \<Rightarrow> WritableFile \<Rightarrow> op list \<Rightarrow> Rep option" where
  "build env opt f ops =
     (case TableBuilder_new opt f of
        None \<Rightarrow> None
      | Some r0 \<Rightarrow> (case run env r0 ops of None \<Rightarrow> None | Some r \<Rightarrow> Finish env r))"


section \<open>Auxiliary notions for the proofs\<close>

text \<open>The bit positions probed for a key, and the test of one bit of a filter that
  starts at \<open>init_size\<close> in a buffer.\<close>

fun probe_positions :: "nat \<Rightarrow> u32 \<Rightarrow> u32 \<Rightarrow> nat \<Rightarrow> nat list" where
  "probe_positions 0 h delta bits = []"
| "probe_positions (Suc j) h delta bits = (unat h mod bits) # probe_positions j (h + delta) delta bits"


definition has_bit :: "bytes \<Rightarrow> nat \<Rightarrow> nat \<Rightarrow> bool" where
  "has_bit dst init_size p = bit (dst ! (init_size + p div 8)) (p mod 8)"


definition key_positions :: "hash_fn \<Rightarrow> nat \<Rightarrow> nat \<Rightarrow> bytes \<Rightarrow> nat list" where
  "key_positions hash k bits key =
     probe_positions k (BloomHash hash key) (drop_bit 17 (BloomHash hash key) OR push_bit 15 (BloomHash hash key)) bits"


text \<open>The number of filter bytes that \<open>CreateFilter\<close> allocates for \<open>n\<close> keys.\<close>

definition filter_nbytes :: "BloomFilterPolicy \<Rightarrow> nat \<Rightarrow> nat" where
  "filter_nbytes p n = (max 64 (n * bloom_bits_per_key p) + 7) div 8"


text \<open>A block builder driven through a list of key/value pairs.\<close>

fun BlockBuilder_AddAll :: "Options \<Rightarrow> BlockBuilder \<Rightarrow> (bytes \<times> bytes) list \<Rightarrow> BlockBuilder option" where
  "BlockBuilder_AddAll opts b [] = Some b"
| "BlockBuilder_AddAll opts b ((key, val) # rest) =
     (case BlockBuilder_Add opts b key val of None \<Rightarrow> None | Some b' \<Rightarrow> BlockBuilder_AddAll opts b' rest)"

text \<open>The bytes of one block entry, as the spec lays them out: three varint32 (shared,
  non-shared, value length), the key suffix, the value.\<close>

definition block_entry :: "nat \<Rightarrow> bytes \<Rightarrow> bytes \<Rightarrow> bytes" where
  "block_entry shared key_suffix val =
     PutVarint32 (of_nat shared) @ PutVarint32 (of_nat (length key_suffix)) @ PutVarint32 (of_nat (length val))
       @ key_suffix @ val"

text \<open>
  The block that the spec describes for a restart interval \<open>R\<close>: entry \<open>j\<close> is a restart
  point, stored with \<open>shared = 0\<close> and its full key, exactly when \<open>j\<close> is a multiple of \<open>R\<close>;
  every other entry shares with the key before it their longest common prefix and stores the
  rest.  The restart array holds the offsets of the entries \<open>0\<close>, \<open>R\<close>, \<open>2 * R\<close>, ... and, for an
  empty block, the offset 0.
\<close>

fun common_prefix :: "bytes \<Rightarrow> bytes \<Rightarrow> nat" where
  "common_prefix (x # xs) (y # ys) = (if x = y then Suc (common_prefix xs ys) else 0)"
| "common_prefix [] ys = 0"
| "common_prefix (x # xs) [] = 0"

fun restart_entries :: "nat \<Rightarrow> nat \<Rightarrow> bytes \<Rightarrow> (bytes \<times> bytes) list \<Rightarrow> bytes list" where
  "restart_entries R j prev [] = []"
| "restart_entries R j prev ((key, val) # rest) =
     (let shared = (if j mod R = 0 then 0 else common_prefix prev key)
      in block_entry shared (drop shared key) val # restart_entries R (Suc j) key rest)"

definition restart_count :: "nat \<Rightarrow> nat \<Rightarrow> nat" where
  "restart_count R n = max 1 ((n + R - 1) div R)"

definition restart_offsets :: "nat \<Rightarrow> bytes list \<Rightarrow> u32 list" where
  "restart_offsets R es =
     map (\<lambda>i. of_nat (length (concat (take (i * R) es)))) [0 ..< restart_count R (length es)]"

subsection \<open>Parameters for the examples\<close>

text \<open>
  A comparator with the bytewise order of \<open>memcmp\<close>, whose two shortening functions leave
  the key as it is (the interface allows that); a file sink that never fails; a CRC and a
  compressor that do nothing; and a filter policy whose filter is one byte, the number of
  keys, and which matches every key.
\<close>

fun bytewise_compare :: "bytes \<Rightarrow> bytes \<Rightarrow> int" where
  "bytewise_compare [] [] = 0"
| "bytewise_compare [] (y # ys) = -1"
| "bytewise_compare (x # xs) [] = 1"
| "bytewise_compare (x # xs) (y # ys) =
     (if x < y then -1 else if y < x then 1 else bytewise_compare xs ys)"

definition example_comparator :: Comparator where
  "example_comparator =
     \<lparr> Compare = bytewise_compare, FindShortestSeparator = (\<lambda>start limit. start),
       FindShortSuccessor = (\<lambda>key. key) \<rparr>"

definition example_env :: Env where
  "example_env =
     \<lparr> crc32c_Value = (\<lambda>data. 0), crc32c_Extend = (\<lambda>crc data. crc), Snappy_Compress = (\<lambda>raw. None) \<rparr>"

definition example_policy :: FilterPolicy where
  "example_policy =
     \<lparr> Name = [0x78], CreateFilter = (\<lambda>keys dst. dst @ [of_nat (length keys)]),
       KeyMayMatch = (\<lambda>key filter. True) \<rparr>"

definition example_options :: Options where
  "example_options =
     \<lparr> comparator = example_comparator, block_size = 4096, block_restart_interval = 3,
       compression = kNoCompression, filter_policy = Some example_policy \<rparr>"

definition example_file :: WritableFile where
  "example_file = \<lparr> appended = [], outcomes = [] \<rparr>"

subsection \<open>Notions about the table builder\<close>

text \<open>The members of \<open>Rep\<close> that writing a block leaves alone.\<close>

definition frame_eq :: "Rep \<Rightarrow> Rep \<Rightarrow> bool" where
  "frame_eq r r' =
     (options r' = options r \<and> index_block_options r' = index_block_options r \<and>
      data_block r' = data_block r \<and> index_block r' = index_block r \<and> last_key r' = last_key r \<and>
      num_entries r' = num_entries r \<and> closed r' = closed r \<and> filter_block r' = filter_block r \<and>
      pending_index_entry r' = pending_index_entry r \<and> pending_handle r' = pending_handle r)"

text \<open>A sink without errors: none of the coming calls fails.\<close>

definition sink_ok :: "WritableFile \<Rightarrow> bool" where
  "sink_ok f = (False \<notin> set (outcomes f))"

text \<open>The five bytes that follow a block in the file.\<close>

definition block_trailer :: "Env \<Rightarrow> bytes \<Rightarrow> CompressionType \<Rightarrow> bytes" where
  "block_trailer env c t =
     CompressionType_byte t
       # EncodeFixed32 (crc32c_Mask (crc32c_Extend env (crc32c_Value env c) [CompressionType_byte t]))"

text \<open>The bytes and the type that \<open>WriteBlock\<close> hands to \<open>WriteRawBlock\<close>.\<close>

definition chosen_block :: "Env \<Rightarrow> Options \<Rightarrow> bytes \<Rightarrow> bytes \<times> CompressionType" where
  "chosen_block env opts raw =
     (case compression opts of
        kNoCompression \<Rightarrow> (raw, kNoCompression)
      | kSnappyCompression \<Rightarrow>
          (case Snappy_Compress env raw of
             Some compressed \<Rightarrow>
               if length compressed < length raw - length raw div 8
               then (compressed, kSnappyCompression) else (raw, kNoCompression)
           | None \<Rightarrow> (raw, kNoCompression)))"

text \<open>The invariant stated in the comment of \<open>Rep\<close>: \<open>pending_index_entry\<close> is true only
  if the data block is empty.\<close>

definition pending_inv :: "Rep \<Rightarrow> bool" where
  "pending_inv r = (pending_index_entry r \<longrightarrow> BlockBuilder_empty (data_block r))"

text \<open>The number of filters generated so far is the index of the window the file offset
  lies in.\<close>

definition filter_inv :: "Rep \<Rightarrow> bool" where
  "filter_inv r =
     (case filter_block r of
        None \<Rightarrow> True
      | Some fb \<Rightarrow> length (fb_filter_offsets fb) = offset r div kFilterBase)"

text \<open>
  The two halves of the writing branch of \<open>Flush\<close>: the bookkeeping after \<open>WriteBlock\<close>,
  and the call of \<open>StartBlock\<close> with the new offset.
\<close>

definition Flush_written :: "Rep \<Rightarrow> BlockBuilder \<Rightarrow> BlockHandle \<Rightarrow> Rep" where
  "Flush_written r1 block handle =
     (let r2 = r1\<lparr> data_block := block, pending_handle := handle \<rparr>
      in if ok r2
         then let (st, f) = File_Flush (rep_file r2)
              in r2\<lparr> pending_index_entry := True, status := st, rep_file := f \<rparr>
         else r2)"

definition tell_filter :: "Rep \<Rightarrow> Rep option" where
  "tell_filter r3 =
     (case filter_block r3 of
        None \<Rightarrow> Some r3
      | Some fb \<Rightarrow>
          (case StartBlock fb (offset r3) of
             None \<Rightarrow> None
           | Some fb' \<Rightarrow> Some (r3\<lparr> filter_block := Some fb' \<rparr>)))"

text \<open>
  The two first steps of \<open>Add\<close>: the index entry of the block written last, and the
  bookkeeping of the new key.
\<close>

definition Add_pending :: "Rep \<Rightarrow> bytes \<Rightarrow> Rep option" where
  "Add_pending r key =
     (if pending_index_entry r
      then if \<not> BlockBuilder_empty (data_block r) then None
           else
             (let r1 = r\<lparr> last_key := FindShortestSeparator (comparator (options r)) (last_key r) key \<rparr>;
                  handle_encoding = EncodeTo (pending_handle r1)
              in (case BlockBuilder_Add (index_block_options r1) (index_block r1) (last_key r1)
                         handle_encoding of
                    None \<Rightarrow> None
                  | Some block \<Rightarrow> Some (r1\<lparr> index_block := block, pending_index_entry := False \<rparr>)))
      else Some r)"

definition Add_key :: "Rep \<Rightarrow> bytes \<Rightarrow> Rep" where
  "Add_key r2 key =
     (let r3 = (case filter_block r2 of
                  None \<Rightarrow> r2
                | Some fb \<Rightarrow> r2\<lparr> filter_block := Some (AddKey fb key) \<rparr>)
      in r3\<lparr> last_key := key, num_entries := num_entries r3 + 1 \<rparr>)"

subsection \<open>Legal input\<close>

text \<open>
  The contract of a comparator, as far as the table builder relies on it: \<open>Compare\<close> is
  transitive, the shortest separator of \<open>start < limit\<close> lies in \<open>[start, limit)\<close>, and the
  short successor of a key is not below it.
\<close>

definition comparator_ok :: "Comparator \<Rightarrow> bool" where
  "comparator_ok cmp =
     ((\<forall>a b c. Compare cmp a b > 0 \<and> Compare cmp b c > 0 \<longrightarrow> Compare cmp a c > 0) \<and>
      (\<forall>a b c. Compare cmp a b \<ge> 0 \<and> Compare cmp b c > 0 \<longrightarrow> Compare cmp a c > 0) \<and>
      (\<forall>a b. Compare cmp b a > 0 \<longrightarrow>
         Compare cmp (FindShortestSeparator cmp a b) a \<ge> 0 \<and>
         Compare cmp b (FindShortestSeparator cmp a b) > 0) \<and>
      (\<forall>a. Compare cmp (FindShortSuccessor cmp a) a \<ge> 0))"

text \<open>Strictly ascending keys: each key compares greater than the one before.\<close>

fun ascending :: "Comparator \<Rightarrow> bytes list \<Rightarrow> bool" where
  "ascending cmp [] = True"
| "ascending cmp [k] = True"
| "ascending cmp (a # b # rest) = (Compare cmp b a > 0 \<and> ascending cmp (b # rest))"

fun keys_of :: "op list \<Rightarrow> bytes list" where
  "keys_of [] = []"
| "keys_of (OpAdd key val # xs) = key # keys_of xs"
| "keys_of (OpFlush # xs) = keys_of xs"

text \<open>The keys to come are ascending, also after the key added last.\<close>

definition ascending_from :: "Rep \<Rightarrow> op list \<Rightarrow> bool" where
  "ascending_from r ops =
     (if num_entries r > 0 then ascending (comparator (options r)) (last_key r # keys_of ops)
      else ascending (comparator (options r)) (keys_of ops))"

text \<open>The number of bytes handed to \<open>Append\<close> so far.\<close>

definition bytes_appended :: "WritableFile \<Rightarrow> nat" where
  "bytes_appended f = sum_list (map length (appended f))"

text \<open>
  The state of a table builder that has been fed legal input and has seen no sink error;
  \<open>base\<close> is the number of bytes the file held when the builder was made.
\<close>

definition good :: "nat \<Rightarrow> Rep \<Rightarrow> bool" where
  "good base r =
     (\<not> closed r \<and> status r = OK \<and> sink_ok (rep_file r) \<and> pending_inv r \<and> filter_inv r \<and>
      0 \<le> num_entries r \<and>
      (pending_index_entry r \<longrightarrow> num_entries r > 0) \<and>
      \<not> bb_finished (data_block r) \<and>
      bb_counter (data_block r) \<le> block_restart_interval (options r) \<and>
      (bb_buffer (data_block r) \<noteq> [] \<longrightarrow>
         num_entries r > 0 \<and> bb_last_key (data_block r) = last_key r) \<and>
      \<not> bb_finished (index_block r) \<and>
      bb_counter (index_block r) \<le> 1 \<and>
      (bb_buffer (index_block r) \<noteq> [] \<longrightarrow>
         num_entries r > 0 \<and>
         Compare (comparator (options r)) (last_key r) (bb_last_key (index_block r)) > 0) \<and>
      index_block_options r = (options r)\<lparr> block_restart_interval := 1 \<rparr> \<and>
      1 \<le> block_restart_interval (options r) \<and>
      comparator_ok (comparator (options r)) \<and>
      bytes_appended (rep_file r) = base + offset r \<and>
      map_option fb_policy (filter_block r) = filter_policy (options r))"

subsection \<open>What the filter block holds\<close>

text \<open>
  The contract of a filter policy (\<open>leveldb/filter_policy.h\<close>): \<open>CreateFilter\<close> appends to
  \<open>dst\<close> and leaves what \<open>dst\<close> held; a key of the list matches the filter that was
  appended.
\<close>

definition policy_appends :: "FilterPolicy \<Rightarrow> bool" where
  "policy_appends pol = (\<forall>keys dst. take (length dst) (CreateFilter pol keys dst) = dst)"


text \<open>
  A log lists, for every key added, the file offset of the data block the key went into.
  \<open>keys_in log i\<close> are the keys of the blocks that start in window \<open>i\<close>; \<open>made\<close> is the
  filter generated for a list of keys when the filter data so far is \<open>dst\<close>;
  \<open>filters_upto pol log m\<close> are the filters of the windows below \<open>m\<close>.
\<close>

definition keys_in :: "(nat \<times> bytes) list \<Rightarrow> nat \<Rightarrow> bytes list" where
  "keys_in log i = map snd (filter (\<lambda>e. fst e div kFilterBase = i) log)"

definition made :: "FilterPolicy \<Rightarrow> bytes \<Rightarrow> bytes list \<Rightarrow> bytes" where
  "made pol dst ks = (if ks = [] then [] else drop (length dst) (CreateFilter pol ks dst))"

fun filters_upto :: "FilterPolicy \<Rightarrow> (nat \<times> bytes) list \<Rightarrow> nat \<Rightarrow> bytes list" where
  "filters_upto pol log 0 = []"
| "filters_upto pol log (Suc i) =
     filters_upto pol log i @ [made pol (concat (filters_upto pol log i)) (keys_in log i)]"

text \<open>The offsets at which the members of a list of byte strings start in their
  concatenation.\<close>

definition offsets_of :: "bytes list \<Rightarrow> nat list" where
  "offsets_of fs = map (\<lambda>i. length (concat (take i fs))) [0 ..< length fs]"

text \<open>A filter block builder that holds the filters of the windows below \<open>m\<close> and, pending,
  the keys of window \<open>m\<close>.\<close>

definition fb_rep :: "(nat \<times> bytes) list \<Rightarrow> nat \<Rightarrow> FilterBlockBuilder \<Rightarrow> bool" where
  "fb_rep log m fb =
     (fb_result fb = concat (filters_upto (fb_policy fb) log m) \<and>
      fb_filter_offsets fb = map of_nat (offsets_of (filters_upto (fb_policy fb) log m)) \<and>
      fb_keys fb = concat (keys_in log m) \<and>
      fb_start fb = offsets_of (keys_in log m) \<and>
      (\<forall>e \<in> set log. fst e div kFilterBase \<le> m))"

definition filter_rep :: "(nat \<times> bytes) list \<Rightarrow> Rep \<Rightarrow> bool" where
  "filter_rep log r =
     (case filter_block r of
        None \<Rightarrow> True
      | Some fb \<Rightarrow> policy_appends (fb_policy fb) \<and> fb_rep log (offset r div kFilterBase) fb)"

text \<open>The bytes of a finished filter block that holds the filters \<open>fs\<close>.\<close>

definition filter_block_bytes :: "bytes list \<Rightarrow> bytes" where
  "filter_block_bytes fs =
     concat fs @ concat (map EncodeFixed32 (map of_nat (offsets_of fs)))
       @ EncodeFixed32 (of_nat (length (concat fs))) @ [of_nat kFilterBaseLg]"

text \<open>
  The log of a run: each key that \<open>Add\<close> puts into the data block goes into the block that
  will be written at the current file offset.
\<close>

fun block_keys :: "Env \<Rightarrow> Rep \<Rightarrow> op list \<Rightarrow> (nat \<times> bytes) list" where
  "block_keys env r [] = []"
| "block_keys env r (OpAdd key val # xs) =
     (case Add env r key val of
        None \<Rightarrow> []
      | Some r' \<Rightarrow> (if ok r then [(offset r, key)] else []) @ block_keys env r' xs)"
| "block_keys env r (OpFlush # xs) =
     (case Flush env r of None \<Rightarrow> [] | Some r' \<Rightarrow> block_keys env r' xs)"



text \<open>
  The filter block of a finished table with a filter policy: \<open>Finish\<close> appends, after the
  data blocks, the filter block, the meta-index block and the index block, each followed by
  its trailer, and the footer; the filter block is the seventh byte string from the end.
\<close>

definition written_filter_block :: "Rep \<Rightarrow> bytes" where
  "written_filter_block r = appended (rep_file r) ! (length (appended (rep_file r)) - 7)"

text \<open>The filters of a finished filter block: a last filter is generated if keys are
  pending.\<close>

definition final_filters :: "FilterPolicy \<Rightarrow> (nat \<times> bytes) list \<Rightarrow> nat \<Rightarrow> bytes list" where
  "final_filters pol log m =
     (if keys_in log m = [] then filters_upto pol log m else filters_upto pol log (Suc m))"

text \<open>
  A hash function to run the Bloom filter policy on, and the example options with the Bloom
  filter policy at 10 bits per key.
\<close>

definition example_hash :: hash_fn where
  "example_hash data seed = seed + of_nat (length data)"

definition bloom_policy :: FilterPolicy where
  "bloom_policy = BloomFilterPolicy_policy example_hash (NewBloomFilterPolicy 10)"

definition bloom_options :: Options where
  "bloom_options = example_options\<lparr> filter_policy := Some bloom_policy \<rparr>"

text \<open>A value of 5000 bytes: a data block that holds it covers more than two windows of
  \<open>2 ^ 11\<close> bytes.\<close>

definition big_value :: bytes where
  "big_value = replicate 5000 0"
section \<open>Properties of the Bloom filter\<close>

lemma length_CreateFilter_probes [simp]:
  "length (CreateFilter_probes j h delta bits init_size dst) = length dst"
  by (induction j arbitrary: h dst) (simp_all add: Let_def)

lemma length_CreateFilter_key [simp]:
  "length (CreateFilter_key hash k bits init_size dst key) = length dst"
  by (simp add: CreateFilter_key_def Let_def)

lemma length_foldl_CreateFilter_key [simp]:
  "length (foldl (CreateFilter_key hash k bits init_size) dst keys) = length dst"
  by (induction keys arbitrary: dst) simp_all


lemma test_bit_byte: "((w::byte) AND 2 ^ n = 0) = (\<not> bit w n)"
  by (simp add: and_exp_eq_0_iff_not_bit)

lemma bit_exp_byte: "n < 8 \<Longrightarrow> bit ((2::byte) ^ n) n"
  by (simp add: bit_exp_iff)

lemma KeyMayMatch_probes_iff:
  "KeyMayMatch_probes j h delta bits array = (\<forall>p \<in> set (probe_positions j h delta bits). has_bit array 0 p)"
  by (induction j arbitrary: h) (auto simp: Let_def test_bit_byte has_bit_def)

lemma probes_frame:
  "i < init_size \<or> init_size + nbytes \<le> i \<Longrightarrow> 0 < nbytes \<Longrightarrow>
   CreateFilter_probes j h delta (nbytes * 8) init_size dst ! i = dst ! i"
proof (induction j arbitrary: h dst)
  case 0
  then show ?case by simp
next
  case (Suc j)
  have "unat h mod (nbytes * 8) div 8 < nbytes"
    using Suc.prems(2) by (simp add: less_mult_imp_div_less)
  then have "init_size + unat h mod (nbytes * 8) div 8 \<noteq> i"
    using Suc.prems(1) by auto
  then show ?case using Suc by (simp add: Let_def)
qed

lemma probes_mono:
  "has_bit dst init_size p \<Longrightarrow> init_size + p div 8 < length dst \<Longrightarrow>
   has_bit (CreateFilter_probes j h delta bits init_size dst) init_size p"
proof (induction j arbitrary: h dst)
  case 0
  then show ?case by simp
next
  case (Suc j)
  let ?bp = "unat h mod bits"
  let ?dst' = "dst[init_size + ?bp div 8 := (dst ! (init_size + ?bp div 8)) OR push_bit (?bp mod 8) 1]"
  have "has_bit ?dst' init_size p"
    using Suc.prems by (cases "init_size + ?bp div 8 = init_size + p div 8") (simp_all add: has_bit_def bit_or_iff)
  moreover have "init_size + p div 8 < length ?dst'" using Suc.prems by simp
  ultimately show ?case using Suc.IH[of ?dst' "h + delta"] by (simp add: Let_def)
qed

lemma probes_set:
  "0 < nbytes \<Longrightarrow> init_size + nbytes \<le> length dst \<Longrightarrow> p \<in> set (probe_positions j h delta (nbytes * 8)) \<Longrightarrow>
   has_bit (CreateFilter_probes j h delta (nbytes * 8) init_size dst) init_size p"
proof (induction j arbitrary: h dst)
  case 0
  then show ?case by simp
next
  case (Suc j)
  let ?bits = "nbytes * 8"
  let ?bp = "unat h mod ?bits"
  let ?dst' = "dst[init_size + ?bp div 8 := (dst ! (init_size + ?bp div 8)) OR push_bit (?bp mod 8) 1]"
  have lt: "?bp div 8 < nbytes" using Suc.prems(1) by (simp add: less_mult_imp_div_less)
  show ?case
  proof (cases "p = ?bp")
    case True
    have "has_bit ?dst' init_size ?bp"
      using lt Suc.prems(2) by (simp add: has_bit_def bit_or_iff bit_exp_byte)
    then have "has_bit (CreateFilter_probes j (h + delta) delta ?bits init_size ?dst') init_size ?bp"
      using lt Suc.prems(2) by (intro probes_mono) simp_all
    then show ?thesis using True by (simp add: Let_def)
  next
    case False
    then have "p \<in> set (probe_positions j (h + delta) delta ?bits)" using Suc.prems(3) by simp
    then show ?thesis using Suc.IH[of ?dst' "h + delta"] Suc.prems(1,2) by (simp add: Let_def)
  qed
qed


lemma probe_positions_less:
  "0 < nbytes \<Longrightarrow> p \<in> set (probe_positions j h delta (nbytes * 8)) \<Longrightarrow> p div 8 < nbytes"
  by (induction j arbitrary: h) (auto simp: less_mult_imp_div_less)

lemma fold_frame:
  "i < init_size \<or> init_size + nbytes \<le> i \<Longrightarrow> 0 < nbytes \<Longrightarrow>
   foldl (CreateFilter_key hash k (nbytes * 8) init_size) dst keys ! i = dst ! i"
  by (induction keys arbitrary: dst) (simp_all add: CreateFilter_key_def Let_def probes_frame)

lemma fold_mono:
  "has_bit dst init_size p \<Longrightarrow> init_size + p div 8 < length dst \<Longrightarrow>
   has_bit (foldl (CreateFilter_key hash k bits init_size) dst keys) init_size p"
  by (induction keys arbitrary: dst) (simp_all add: CreateFilter_key_def Let_def probes_mono)

lemma fold_set:
  assumes "0 < nbytes" and "init_size + nbytes \<le> length dst" and "key \<in> set keys"
    and "p \<in> set (key_positions hash k (nbytes * 8) key)"
  shows "has_bit (foldl (CreateFilter_key hash k (nbytes * 8) init_size) dst keys) init_size p"
  using assms(2,3)
proof (induction keys arbitrary: dst)
  case Nil
  then show ?case by simp
next
  case (Cons x xs)
  let ?d = "CreateFilter_key hash k (nbytes * 8) init_size dst x"
  have len: "init_size + nbytes \<le> length ?d" using Cons.prems(1) by simp
  show ?case
  proof (cases "key = x")
    case True
    have "has_bit ?d init_size p"
      using assms(1,4) Cons.prems(1) True
      by (simp add: CreateFilter_key_def key_positions_def Let_def probes_set)
    moreover have "init_size + p div 8 < length ?d"
      using probe_positions_less[OF assms(1)] assms(4) len by (fastforce simp: key_positions_def)
    ultimately show ?thesis by (simp add: fold_mono)
  next
    case False
    then have "key \<in> set xs" using Cons.prems(2) by simp
    then show ?thesis using Cons.IH[OF len] by simp
  qed
qed

lemma filter_nbytes_pos: "0 < filter_nbytes p n"
  by (simp add: filter_nbytes_def)

lemma Bloom_CreateFilter_eq:
  "Bloom_CreateFilter hash p keys dst =
     foldl (CreateFilter_key hash (bloom_k p) (filter_nbytes p (length keys) * 8) (length dst))
       (dst @ replicate (filter_nbytes p (length keys)) 0 @ [of_nat (bloom_k p)]) keys"
proof -
  have "(if length keys * bloom_bits_per_key p < 64 then 64 else length keys * bloom_bits_per_key p)
        = max 64 (length keys * bloom_bits_per_key p)" by simp
  then show ?thesis by (simp add: Bloom_CreateFilter_def Let_def filter_nbytes_def)
qed

lemma length_Bloom_CreateFilter:
  "length (Bloom_CreateFilter hash p keys dst) = length dst + filter_nbytes p (length keys) + 1"
  by (simp add: Bloom_CreateFilter_eq)

lemma Bloom_CreateFilter_prefix:
  "take (length dst) (Bloom_CreateFilter hash p keys dst) = dst"
  by (rule nth_equalityI) (simp_all add: length_Bloom_CreateFilter Bloom_CreateFilter_eq fold_frame filter_nbytes_pos nth_append)

lemma Bloom_CreateFilter_last:
  "Bloom_CreateFilter hash p keys dst ! (length dst + filter_nbytes p (length keys)) = of_nat (bloom_k p)"
  by (simp add: Bloom_CreateFilter_eq fold_frame filter_nbytes_pos nth_append)

lemma NewBloomFilterPolicy_k:
  "bloom_k (NewBloomFilterPolicy bpk) = max 1 (min 30 (bpk * 69 div 100))"
  by (simp add: NewBloomFilterPolicy_def Let_def)

lemma Bloom_match_general:
  assumes "key \<in> set keys" and "bloom_k p \<le> 30"
  shows "Bloom_KeyMayMatch hash key (drop (length dst) (Bloom_CreateFilter hash p keys dst))"
proof -
  let ?nb = "filter_nbytes p (length keys)"
  let ?R = "Bloom_CreateFilter hash p keys dst"
  let ?f = "drop (length dst) ?R"
  have lenR: "length ?R = length dst + ?nb + 1" by (rule length_Bloom_CreateFilter)
  then have lenf: "length ?f = ?nb + 1" by simp
  have pos: "0 < ?nb" by (rule filter_nbytes_pos)
  have kbyte: "?f ! ?nb = of_nat (bloom_k p)"
    using Bloom_CreateFilter_last[of hash p keys dst] lenR by simp
  have "unat (of_nat (bloom_k p) :: byte) = bloom_k p"
    using assms(2) by (simp add: unat_of_nat)
  then have k: "unat (?f ! ?nb) = bloom_k p" using kbyte by simp
  have bits: "\<forall>q \<in> set (key_positions hash (bloom_k p) (?nb * 8) key). has_bit ?f 0 q"
  proof
    fix q assume q: "q \<in> set (key_positions hash (bloom_k p) (?nb * 8) key)"
    have "has_bit ?R (length dst) q"
      unfolding Bloom_CreateFilter_eq
      using pos assms(1) q by (intro fold_set) simp_all
    moreover have "q div 8 < ?nb" using probe_positions_less[OF pos] q by (simp add: key_positions_def)
    ultimately show "has_bit ?f 0 q" using lenR by (simp add: has_bit_def)
  qed
  show ?thesis
    unfolding Bloom_KeyMayMatch_def
    using lenf k bits assms(2) pos
    by (simp add: Let_def KeyMayMatch_probes_iff key_positions_def)
qed

text \<open>
  Claim C2.  The Bloom filter policy has no false negatives: a key of the list that
  \<open>CreateFilter\<close> was called on matches the filter that the call appended, whatever the
  hash function and whatever the destination buffer held before.  Both sides derive the
  probe sequence from \<open>BloomHash\<close> (seed \<open>0xbc9f1d34\<close>) in the same way.
\<close>

theorem bloom_no_false_negatives:
  "key \<in> set keys \<Longrightarrow>
   Bloom_KeyMayMatch hash key
     (drop (length dst) (Bloom_CreateFilter hash (NewBloomFilterPolicy bits_per_key) keys dst))"
  by (rule Bloom_match_general) (simp_all add: NewBloomFilterPolicy_def Let_def)

theorem bloom_no_false_negatives_witness:
  "[2::byte] \<in> set [[1], [2], [3, 4]] \<and>
   Bloom_KeyMayMatch (\<lambda>data seed. seed + of_nat (length data)) [2]
     (drop (length [7::byte]) (Bloom_CreateFilter (\<lambda>data seed. seed + of_nat (length data))
        (NewBloomFilterPolicy 10) [[1], [2], [3, 4]] [7]))"
  using bloom_no_false_negatives[of "[2]" "[[1], [2], [3, 4]]" "\<lambda>data seed. seed + of_nat (length data)" "[7]" 10]
  by simp

text \<open>
  Claim C9.  \<open>CreateFilter\<close> only appends: the bytes that were in the destination stay
  as they are, exactly \<open>ceil(max(64, n * bits_per_key) / 8)\<close> filter bytes and one byte
  holding the probe count \<open>k\<close> are appended, and \<open>k\<close> is a function of \<open>bits_per_key\<close>
  alone.
\<close>

theorem bloom_create_filter_frame:
  "take (length dst) (Bloom_CreateFilter hash p keys dst) = dst \<and>
   length (Bloom_CreateFilter hash p keys dst) =
     length dst + (max 64 (length keys * bloom_bits_per_key p) + 7) div 8 + 1 \<and>
   Bloom_CreateFilter hash p keys dst ! (length dst + (max 64 (length keys * bloom_bits_per_key p) + 7) div 8)
     = of_nat (bloom_k p) \<and>
   bloom_k (NewBloomFilterPolicy bits_per_key) = max 1 (min 30 (bits_per_key * 69 div 100)) \<and>
   bloom_bits_per_key (NewBloomFilterPolicy bits_per_key) = bits_per_key"
  using Bloom_CreateFilter_prefix[of dst hash p keys] length_Bloom_CreateFilter[of hash p keys dst]
    Bloom_CreateFilter_last[of hash p keys dst] NewBloomFilterPolicy_k[of bits_per_key]
  by (simp add: filter_nbytes_def NewBloomFilterPolicy_def Let_def)

section \<open>The filter block reader\<close>

lemma unat_mod64: "unat (w :: 'a::len word) mod 64 = nat (uint w mod 64)"
proof -
  have "nat (uint w mod 64) = nat (uint w) mod nat 64"
    by (rule nat_mod_distrib) simp_all
  then show ?thesis by simp
qed

lemma char_count_mod: "unat (char_to_size_t c) mod 64 = unat c mod 64"
proof -
  have "uint (word_of_int (sint c) :: 64 word) = sint c mod 2 ^ 64"
    by (simp only: uint_word_of_int_eq take_bit_eq_mod) simp
  then have "uint (char_to_size_t c) mod 64 = sint c mod 2 ^ 64 mod 64"
    by (simp only: char_to_size_t_def)
  also have "\<dots> = sint c mod 64"
    by (rule mod_mod_cancel) simp
  also have "\<dots> = sint c mod 2 ^ 8 mod 64"
    by (rule mod_mod_cancel[symmetric]) simp
  also have "sint c mod 2 ^ 8 = uint c"
    using uint_sint[of c] by (simp only: take_bit_eq_mod) simp
  finally have "nat (uint (char_to_size_t c) mod 64) = nat (uint c mod 64)" by simp
  then show ?thesis
    by (simp only: unat_mod64)
qed

lemma shift_right_char:
  "shift_right x (char_to_size_t c) = x div 2 ^ (unat c mod 64)"
  by (simp only: shift_right_def char_count_mod)

text \<open>
  The stored shift count and the window index for last bytes that are not below 64: the
  byte \<open>0x8b\<close> is stored sign-extended and shifts by 11, the byte 64 shifts by 0.
\<close>

lemma reader_shift_examples:
  "fr_base_lg (FilterBlockReader_new policy [0, 0, 0, 0, 0x8b]) = 2 ^ 64 - 117"
  "shift_right 4096 (char_to_size_t 0x8b) = 2"
  "shift_right 1 (char_to_size_t 64) = 1"
  "\<not> FilterBlockReader_KeyMayMatch
       (FilterBlockReader_new (BloomFilterPolicy_policy hash p) [5, 0, 0, 0, 0, 0, 0, 0, 0, 0, 0, 0, 64])
       1 key"
  by (simp_all add: FilterBlockReader_KeyMayMatch_def FilterBlockReader_new_def Let_def
      char_to_size_t_def shift_right_def BloomFilterPolicy_policy_def Bloom_KeyMayMatch_def)

text \<open>
  Claim C10, as the code has it.  The reader answers false only if the block is well
  formed (at least 5 bytes, the stored start of the offset array at most \<open>n - 5\<close>), the
  window index is below the number of offsets, and either the decoded pair is a range
  inside the filter data (\<open>start \<le> limit \<le> array start\<close>, possibly empty) that the policy
  rejects, or \<open>start = limit\<close> lies beyond the start of the offset array.  In every
  other case (short or malformed contents, index out of range, an inconsistent pair with
  \<open>start \<noteq> limit\<close>) it answers true.  The window index is the block offset shifted right
  by the low six bits of the last byte: by the last byte itself when that is below 64, as
  in every block the builder writes.
\<close>

theorem reader_false_only_if:
  assumes "\<not> FilterBlockReader_KeyMayMatch (FilterBlockReader_new policy contents) block_offset key"
  shows "5 \<le> length contents \<and>
         unat (DecodeFixed32 (drop (length contents - 5) contents)) \<le> length contents - 5 \<and>
         block_offset div 2 ^ (unat (contents ! (length contents - 1)) mod 64)
           < (length contents - 5 - unat (DecodeFixed32 (drop (length contents - 5) contents))) div 4 \<and>
         (let array_start = unat (DecodeFixed32 (drop (length contents - 5) contents));
              index = block_offset div 2 ^ (unat (contents ! (length contents - 1)) mod 64);
              start = DecodeFixed32 (drop (array_start + index * 4) contents);
              limit = DecodeFixed32 (drop (array_start + index * 4 + 4) contents)
          in if start \<le> limit \<and> unat limit \<le> array_start
             then \<not> KeyMayMatch policy key (take (unat limit - unat start) (drop (unat start) contents))
             else start = limit)"
proof -
  let ?n = "length contents"
  let ?lw = "DecodeFixed32 (drop (?n - 5) contents)"
  let ?rd = "FilterBlockReader_new policy contents"
  have num0: "fr_num ?rd = 0" if "?n < 5 \<or> unat ?lw > ?n - 5"
    using that by (auto simp: FilterBlockReader_new_def Let_def)
  have true0: "FilterBlockReader_KeyMayMatch ?rd block_offset key" if "fr_num ?rd = 0"
    using that by (simp add: FilterBlockReader_KeyMayMatch_def Let_def)
  have n: "5 \<le> ?n" and w: "unat ?lw \<le> ?n - 5"
    using assms num0 true0 by force+
  have rd: "?rd = \<lparr> fr_policy = policy, fr_data = contents, fr_offset = unat ?lw,
                     fr_num = (?n - 5 - unat ?lw) div 4,
                     fr_base_lg = char_to_size_t (contents ! (?n - 1)) \<rparr>"
    using n w by (simp add: FilterBlockReader_new_def Let_def)
  let ?index = "block_offset div 2 ^ (unat (contents ! (?n - 1)) mod 64)"
  have idx: "?index < (?n - 5 - unat ?lw) div 4"
  proof (rule ccontr)
    assume "\<not> ?index < (?n - 5 - unat ?lw) div 4"
    then have "FilterBlockReader_KeyMayMatch ?rd block_offset key"
      unfolding rd by (simp add: FilterBlockReader_KeyMayMatch_def Let_def shift_right_char)
    then show False using assms by simp
  qed
  have "\<not> FilterBlockReader_KeyMayMatch
          \<lparr> fr_policy = policy, fr_data = contents, fr_offset = unat ?lw,
            fr_num = (?n - 5 - unat ?lw) div 4,
            fr_base_lg = char_to_size_t (contents ! (?n - 1)) \<rparr> block_offset key"
    using assms rd by simp
  then have "(let array_start = unat ?lw;
              index = ?index;
              start = DecodeFixed32 (drop (array_start + index * 4) contents);
              limit = DecodeFixed32 (drop (array_start + index * 4 + 4) contents)
          in if start \<le> limit \<and> unat limit \<le> array_start
             then \<not> KeyMayMatch policy key (take (unat limit - unat start) (drop (unat start) contents))
             else start = limit)"
    using idx
    by (simp add: FilterBlockReader_KeyMayMatch_def Let_def shift_right_char split: if_splits)
  then show ?thesis using n w idx by simp
qed

theorem reader_false_only_if_witness:
  "\<not> FilterBlockReader_KeyMayMatch
       (FilterBlockReader_new (BloomFilterPolicy_policy (\<lambda>data seed. seed) (NewBloomFilterPolicy 10))
          [0, 0, 0, 0, 0, 0, 0, 0, 11]) 100 [0x61] \<and>
   5 \<le> length [0, 0, 0, 0, 0, 0, 0, 0, 11 :: byte] \<and>
   DecodeFixed32 (drop (length [0, 0, 0, 0, 0, 0, 0, 0, 11 :: byte] - 5) [0, 0, 0, 0, 0, 0, 0, 0, 11]) = 0 \<and>
   \<not> KeyMayMatch (BloomFilterPolicy_policy (\<lambda>data seed. seed) (NewBloomFilterPolicy 10)) [0x61] []"
proof -
  have h: "\<not> FilterBlockReader_KeyMayMatch
       (FilterBlockReader_new (BloomFilterPolicy_policy (\<lambda>data seed. seed) (NewBloomFilterPolicy 10))
          [0, 0, 0, 0, 0, 0, 0, 0, 11]) 100 [0x61]"
    by (simp add: FilterBlockReader_KeyMayMatch_def FilterBlockReader_new_def Let_def
        BloomFilterPolicy_policy_def Bloom_KeyMayMatch_def char_to_size_t_def shift_right_def)
  show ?thesis
    using reader_false_only_if[OF h] h
    by (simp add: BloomFilterPolicy_policy_def Bloom_KeyMayMatch_def)
qed

theorem reader_fail_open_counterexample:
  "length [50, 0, 0, 0, 50, 0, 0, 0, 0, 0, 0, 0, 11 :: byte] = 13 \<and>
   fr_offset (FilterBlockReader_new example_policy [50, 0, 0, 0, 50, 0, 0, 0, 0, 0, 0, 0, 11]) = 0 \<and>
   fr_num (FilterBlockReader_new example_policy [50, 0, 0, 0, 50, 0, 0, 0, 0, 0, 0, 0, 11]) = 2 \<and>
   fr_base_lg (FilterBlockReader_new example_policy [50, 0, 0, 0, 50, 0, 0, 0, 0, 0, 0, 0, 11]) = 11 \<and>
   DecodeFixed32 (drop 0 [50, 0, 0, 0, 50, 0, 0, 0, 0, 0, 0, 0, 11]) = 50 \<and>
   DecodeFixed32 (drop 4 [50, 0, 0, 0, 50, 0, 0, 0, 0, 0, 0, 0, 11]) = 50 \<and>
   \<not> FilterBlockReader_KeyMayMatch
       (FilterBlockReader_new example_policy [50, 0, 0, 0, 50, 0, 0, 0, 0, 0, 0, 0, 11]) 0 [0x61]"
  by (simp add: FilterBlockReader_KeyMayMatch_def FilterBlockReader_new_def Let_def example_policy_def
      char_to_size_t_def shift_right_def)
section \<open>The sink and the writing of blocks\<close>

lemma length_EncodeFixed32 [simp]: "length (EncodeFixed32 w) = 4"
  by (simp add: EncodeFixed32_def)

lemma length_block_trailer [simp]: "length (block_trailer env c t) = 5"
  by (simp add: block_trailer_def)

lemma File_Append_facts:
  assumes "File_Append f d = (st, f')"
  shows "appended f' = appended f @ [d]"
    and "sink_ok f \<Longrightarrow> st = OK \<and> sink_ok f'"
  using assms by (auto simp: File_Append_def sink_ok_def split: list.splits if_splits)

lemma File_Flush_facts:
  assumes "File_Flush f = (st, f')"
  shows "appended f' = appended f"
    and "sink_ok f \<Longrightarrow> st = OK \<and> sink_ok f'"
  using assms by (auto simp: File_Flush_def sink_ok_def split: list.splits if_splits)

lemma WriteRawBlock_frame:
  assumes "WriteRawBlock env r c t = (r', h)"
  shows "frame_eq r r'" and "compressed_output r' = compressed_output r"
    and "h = \<lparr> bh_offset = offset r, bh_size = length c \<rparr>"
    and "offset r \<le> offset r'"
    and "status r' = OK \<Longrightarrow> offset r' = offset r + (length c + 5)"
  using assms
  by (auto simp: WriteRawBlock_def Let_def frame_eq_def kBlockTrailerSize_def split: prod.splits if_splits)

lemma WriteRawBlock_sink_ok:
  assumes "WriteRawBlock env r c t = (r', h)" and "sink_ok (rep_file r)"
  shows "status r' = OK" and "sink_ok (rep_file r')"
    and "appended (rep_file r') = appended (rep_file r) @ [c, block_trailer env c t]"
    and "offset r' = offset r + (length c + 5)"
proof -
  obtain st f where a1: "File_Append (rep_file r) c = (st, f)" by force
  note f1 = File_Append_facts[OF a1]
  have st: "st = OK" and okf: "sink_ok f" using f1(2) assms(2) by auto
  obtain st2 f2 where a2: "File_Append f (block_trailer env c t) = (st2, f2)" by force
  note f2 = File_Append_facts[OF a2]
  have st2: "st2 = OK" and okf2: "sink_ok f2" using f2(2) okf by auto
  have r': "r' = r\<lparr> status := OK, rep_file := f2, offset := offset r + (length c + 5) \<rparr>"
    using assms(1) a1 a2 st st2
    by (simp add: WriteRawBlock_def Let_def block_trailer_def kBlockTrailerSize_def)
  show "status r' = OK" "sink_ok (rep_file r')" "offset r' = offset r + (length c + 5)"
    using r' okf2 by simp_all
  show "appended (rep_file r') = appended (rep_file r) @ [c, block_trailer env c t]"
    using r' f1(1) f2(1) by simp
qed

lemma WriteRawBlock_compressed_output:
  "WriteRawBlock env (r\<lparr> compressed_output := x \<rparr>) c t =
     ((fst (WriteRawBlock env r c t))\<lparr> compressed_output := x \<rparr>, snd (WriteRawBlock env r c t))"
  by (simp add: WriteRawBlock_def Let_def split: prod.splits)

lemma WriteBlock_eq:
  "WriteBlock env r b =
     (if ok r
      then Some ((fst (WriteRawBlock env r (fst (chosen_block env (options r) (snd (BlockBuilder_Finish b))))
                        (snd (chosen_block env (options r) (snd (BlockBuilder_Finish b))))))
                   \<lparr> compressed_output := [] \<rparr>,
                 BlockBuilder_Reset (fst (BlockBuilder_Finish b)),
                 snd (WriteRawBlock env r (fst (chosen_block env (options r) (snd (BlockBuilder_Finish b))))
                        (snd (chosen_block env (options r) (snd (BlockBuilder_Finish b))))))
      else None)"
  by (simp add: WriteBlock_def chosen_block_def Let_def WriteRawBlock_compressed_output
      split: prod.splits CompressionType.splits option.splits)

lemma WriteBlock_frame:
  assumes "WriteBlock env r b = Some (r', b', h)"
  shows "frame_eq r r'" and "compressed_output r' = []"
    and "b' = BlockBuilder_Reset (fst (BlockBuilder_Finish b))"
    and "bh_offset h = offset r"
    and "offset r \<le> offset r'"
    and "ok r"
proof -
  let ?c = "fst (chosen_block env (options r) (snd (BlockBuilder_Finish b)))"
  let ?t = "snd (chosen_block env (options r) (snd (BlockBuilder_Finish b)))"
  obtain r1 h1 where w: "WriteRawBlock env r ?c ?t = (r1, h1)" by force
  have okr: "ok r" using assms by (simp add: WriteBlock_eq split: if_splits)
  then have eq: "r' = r1\<lparr> compressed_output := [] \<rparr>" "b' = BlockBuilder_Reset (fst (BlockBuilder_Finish b))" "h = h1"
    using assms w by (simp_all add: WriteBlock_eq)
  note fr = WriteRawBlock_frame[OF w]
  show "frame_eq r r'" using fr(1) eq(1) by (simp add: frame_eq_def)
  show "compressed_output r' = []" using eq(1) by simp
  show "b' = BlockBuilder_Reset (fst (BlockBuilder_Finish b))" by fact
  show "bh_offset h = offset r" using fr(3) eq(3) by simp
  show "offset r \<le> offset r'" using fr(4) eq(1) by simp
  show "ok r" by fact
qed

lemma WriteBlock_sink_ok:
  assumes "ok r" and "sink_ok (rep_file r)"
  shows "\<exists>r' h. WriteBlock env r b = Some (r', BlockBuilder_Reset (fst (BlockBuilder_Finish b)), h) \<and>
           frame_eq r r' \<and> status r' = OK \<and> sink_ok (rep_file r') \<and> bh_offset h = offset r \<and>
           (\<exists>c t. appended (rep_file r') = appended (rep_file r) @ [c, block_trailer env c t] \<and>
                   offset r' = offset r + (length c + 5))"
proof -
  let ?c = "fst (chosen_block env (options r) (snd (BlockBuilder_Finish b)))"
  let ?t = "snd (chosen_block env (options r) (snd (BlockBuilder_Finish b)))"
  obtain r1 h1 where w: "WriteRawBlock env r ?c ?t = (r1, h1)" by force
  have eq: "WriteBlock env r b = Some (r1\<lparr> compressed_output := [] \<rparr>, BlockBuilder_Reset (fst (BlockBuilder_Finish b)), h1)"
    using assms(1) w by (simp add: WriteBlock_eq)
  note fr = WriteBlock_frame[OF eq]
  note so = WriteRawBlock_sink_ok[OF w assms(2)]
  have "appended (rep_file (r1\<lparr> compressed_output := [] \<rparr>)) = appended (rep_file r) @ [?c, block_trailer env ?c ?t] \<and>
        offset (r1\<lparr> compressed_output := [] \<rparr>) = offset r + (length ?c + 5)"
    using so by simp
  then have "\<exists>c t. appended (rep_file (r1\<lparr> compressed_output := [] \<rparr>)) = appended (rep_file r) @ [c, block_trailer env c t] \<and>
        offset (r1\<lparr> compressed_output := [] \<rparr>) = offset r + (length c + 5)"
    by blast
  then show ?thesis using eq fr so by simp
qed

lemma BlockBuilder_empty_Reset [simp]: "BlockBuilder_empty (BlockBuilder_Reset b)"
  by (simp add: BlockBuilder_empty_def BlockBuilder_Reset_def)

lemma length_StartBlock_loop:
  "length (fb_filter_offsets (StartBlock_loop n fb)) = max n (length (fb_filter_offsets fb))"
proof (induction n fb rule: StartBlock_loop.induct)
  case (1 filter_index fb)
  show ?case
  proof (cases "filter_index > length (fb_filter_offsets fb)")
    case True
    have "length (fb_filter_offsets (GenerateFilter fb)) = Suc (length (fb_filter_offsets fb))"
      by (simp add: GenerateFilter_def Let_def)
    with True "1.IH" show ?thesis by (subst StartBlock_loop.simps) simp
  next
    case False
    then show ?thesis by (subst StartBlock_loop.simps) simp
  qed
qed

lemma StartBlock_length:
  "StartBlock fb off = Some fb' \<Longrightarrow> length (fb_filter_offsets fb') = off div kFilterBase"
  by (auto simp: StartBlock_def Let_def length_StartBlock_loop split: if_splits)

lemma fb_policy_StartBlock_loop [simp]: "fb_policy (StartBlock_loop n fb) = fb_policy fb"
proof (induction n fb rule: StartBlock_loop.induct)
  case (1 filter_index fb)
  show ?case
  proof (cases "filter_index > length (fb_filter_offsets fb)")
    case True
    have "fb_policy (GenerateFilter fb) = fb_policy fb" by (simp add: GenerateFilter_def Let_def)
    with True "1.IH" show ?thesis by (subst StartBlock_loop.simps) simp
  next
    case False
    then show ?thesis by (subst StartBlock_loop.simps) simp
  qed
qed

lemma StartBlock_policy: "StartBlock fb off = Some fb' \<Longrightarrow> fb_policy fb' = fb_policy fb"
  by (auto simp: StartBlock_def Let_def split: if_splits)

lemma Flush_eq:
  "Flush env r =
     (if closed r then None
      else if \<not> ok r then Some r
      else if BlockBuilder_empty (data_block r) then Some r
      else if pending_index_entry r then None
      else case WriteBlock env r (data_block r) of
             None \<Rightarrow> None
           | Some (r1, block, handle) \<Rightarrow> tell_filter (Flush_written r1 block handle))"
  by (simp only: Flush_def Flush_written_def tell_filter_def Let_def)

lemma File_Flush_appended [simp]: "appended (snd (File_Flush f)) = appended f"
  by (simp add: File_Flush_def split: list.splits)

lemma File_Flush_sink_ok:
  "sink_ok f \<Longrightarrow> fst (File_Flush f) = OK \<and> sink_ok (snd (File_Flush f))"
  by (auto simp: File_Flush_def sink_ok_def split: list.splits)

lemma Flush_written_alt:
  "Flush_written r1 b h =
     (if ok r1
      then r1\<lparr> data_block := b, pending_handle := h, pending_index_entry := True,
               status := fst (File_Flush (rep_file r1)), rep_file := snd (File_Flush (rep_file r1)) \<rparr>
      else r1\<lparr> data_block := b, pending_handle := h \<rparr>)"
  by (simp add: Flush_written_def Let_def ok_def split: prod.splits)

lemma Flush_written_fields [simp]:
  "data_block (Flush_written r1 b h) = b"
  "pending_handle (Flush_written r1 b h) = h"
  "offset (Flush_written r1 b h) = offset r1"
  "filter_block (Flush_written r1 b h) = filter_block r1"
  "options (Flush_written r1 b h) = options r1"
  "index_block_options (Flush_written r1 b h) = index_block_options r1"
  "index_block (Flush_written r1 b h) = index_block r1"
  "last_key (Flush_written r1 b h) = last_key r1"
  "num_entries (Flush_written r1 b h) = num_entries r1"
  "closed (Flush_written r1 b h) = closed r1"
  "compressed_output (Flush_written r1 b h) = compressed_output r1"
  "appended (rep_file (Flush_written r1 b h)) = appended (rep_file r1)"
  "pending_index_entry (Flush_written r1 b h) = (ok r1 \<or> pending_index_entry r1)"
  by (simp_all add: Flush_written_alt)

lemma Flush_written_sink_ok:
  "sink_ok (rep_file r1) \<Longrightarrow> ok r1 \<Longrightarrow>
   status (Flush_written r1 b h) = OK \<and> sink_ok (rep_file (Flush_written r1 b h))"
  by (simp add: Flush_written_alt File_Flush_sink_ok)

lemma tell_filter_fields:
  assumes "tell_filter r3 = Some r'"
  shows "data_block r' = data_block r3" "pending_handle r' = pending_handle r3" "offset r' = offset r3"
    "options r' = options r3" "index_block_options r' = index_block_options r3"
    "index_block r' = index_block r3" "last_key r' = last_key r3" "num_entries r' = num_entries r3"
    "closed r' = closed r3" "compressed_output r' = compressed_output r3" "rep_file r' = rep_file r3"
    "pending_index_entry r' = pending_index_entry r3" "status r' = status r3"
    "filter_inv r'"
    "(filter_block r' = None) = (filter_block r3 = None)"
    "map_option fb_policy (filter_block r') = map_option fb_policy (filter_block r3)"
  using assms
  by (auto simp: tell_filter_def filter_inv_def StartBlock_length StartBlock_policy split: option.splits)

lemma Flush_pending_inv:
  assumes "Flush env r = Some r'" and "pending_inv r"
  shows "pending_inv r'"
proof (cases "r' = r")
  case True
  then show ?thesis using assms(2) by simp
next
  case False
  then obtain r1 b h where w: "WriteBlock env r (data_block r) = Some (r1, b, h)"
    and t: "tell_filter (Flush_written r1 b h) = Some r'"
    using assms(1) by (auto simp: Flush_eq split: if_splits option.splits)
  have "b = BlockBuilder_Reset (fst (BlockBuilder_Finish (data_block r)))"
    using WriteBlock_frame(3)[OF w] .
  then show ?thesis using tell_filter_fields(1)[OF t] by (simp add: pending_inv_def)
qed

lemma Flush_filter_inv:
  assumes "Flush env r = Some r'" and "filter_inv r"
  shows "filter_inv r'"
proof (cases "r' = r")
  case True
  then show ?thesis using assms(2) by simp
next
  case False
  then obtain r1 b h where t: "tell_filter (Flush_written r1 b h) = Some r'"
    using assms(1) by (auto simp: Flush_eq split: if_splits option.splits)
  then show ?thesis by (rule tell_filter_fields(14))
qed

lemma Add_key_fields [simp]:
  "data_block (Add_key r key) = data_block r"
  "pending_handle (Add_key r key) = pending_handle r"
  "offset (Add_key r key) = offset r"
  "options (Add_key r key) = options r"
  "index_block_options (Add_key r key) = index_block_options r"
  "index_block (Add_key r key) = index_block r"
  "last_key (Add_key r key) = key"
  "num_entries (Add_key r key) = num_entries r + 1"
  "closed (Add_key r key) = closed r"
  "compressed_output (Add_key r key) = compressed_output r"
  "rep_file (Add_key r key) = rep_file r"
  "pending_index_entry (Add_key r key) = pending_index_entry r"
  "status (Add_key r key) = status r"
  "filter_block (Add_key r key) = map_option (\<lambda>fb. AddKey fb key) (filter_block r)"
  by (simp_all add: Add_key_def Let_def split: option.splits)

lemma Add_eq:
  "Add env r key val =
     (if closed r then None
      else if \<not> ok r then Some r
      else if num_entries r > 0 \<and> \<not> Compare (comparator (options r)) key (last_key r) > 0 then None
      else case Add_pending r key of
             None \<Rightarrow> None
           | Some r2 \<Rightarrow>
               (case BlockBuilder_Add (options r2) (data_block r2) key val of
                  None \<Rightarrow> None
                | Some block \<Rightarrow>
                    if CurrentSizeEstimate block \<ge> block_size (options r2)
                    then Flush env ((Add_key r2 key)\<lparr> data_block := block \<rparr>)
                    else Some ((Add_key r2 key)\<lparr> data_block := block \<rparr>)))"
proof -
  have "Add env r key val =
     (if closed r then None
      else if \<not> ok r then Some r
      else if num_entries r > 0 \<and> \<not> Compare (comparator (options r)) key (last_key r) > 0 then None
      else case Add_pending r key of
             None \<Rightarrow> None
           | Some r2 \<Rightarrow>
               (case BlockBuilder_Add (options (Add_key r2 key)) (data_block (Add_key r2 key)) key val of
                  None \<Rightarrow> None
                | Some block \<Rightarrow>
                    if CurrentSizeEstimate (data_block ((Add_key r2 key)\<lparr> data_block := block \<rparr>))
                         \<ge> block_size (options ((Add_key r2 key)\<lparr> data_block := block \<rparr>))
                    then Flush env ((Add_key r2 key)\<lparr> data_block := block \<rparr>)
                    else Some ((Add_key r2 key)\<lparr> data_block := block \<rparr>)))"
    by (simp only: Add_def Add_pending_def Add_key_def Let_def)
  then show ?thesis by (simp cong: option.case_cong)
qed

lemma Add_pending_fields:
  assumes "Add_pending r key = Some r2"
  shows "data_block r2 = data_block r" "pending_handle r2 = pending_handle r" "offset r2 = offset r"
    "options r2 = options r" "index_block_options r2 = index_block_options r"
    "num_entries r2 = num_entries r" "closed r2 = closed r" "compressed_output r2 = compressed_output r"
    "rep_file r2 = rep_file r" "status r2 = status r" "filter_block r2 = filter_block r"
    "\<not> pending_index_entry r2"
  using assms
  by (auto simp: Add_pending_def Let_def split: if_splits option.splits)

lemma Add_pending_inv:
  assumes "Add env r key val = Some r'" and "pending_inv r"
  shows "pending_inv r'"
proof (cases "r' = r")
  case True
  then show ?thesis using assms(2) by simp
next
  case False
  then obtain r2 block where p: "Add_pending r key = Some r2"
    and r': "(if CurrentSizeEstimate block \<ge> block_size (options r2)
              then Flush env ((Add_key r2 key)\<lparr> data_block := block \<rparr>)
              else Some ((Add_key r2 key)\<lparr> data_block := block \<rparr>)) = Some r'"
    using assms(1) by (auto simp: Add_eq split: if_splits option.splits)
  have "pending_inv ((Add_key r2 key)\<lparr> data_block := block \<rparr>)"
    using Add_pending_fields(12)[OF p] by (simp add: pending_inv_def)
  then show ?thesis using r' by (auto split: if_splits intro: Flush_pending_inv)
qed

lemma filter_inv_AddKey:
  "filter_inv r2 \<Longrightarrow> filter_inv ((Add_key r2 key)\<lparr> data_block := block \<rparr>)"
  by (auto simp: filter_inv_def AddKey_def split: option.splits)

lemma Add_filter_inv:
  assumes "Add env r key val = Some r'" and "filter_inv r"
  shows "filter_inv r'"
proof (cases "r' = r")
  case True
  then show ?thesis using assms(2) by simp
next
  case False
  then obtain r2 block where p: "Add_pending r key = Some r2"
    and r': "(if CurrentSizeEstimate block \<ge> block_size (options r2)
              then Flush env ((Add_key r2 key)\<lparr> data_block := block \<rparr>)
              else Some ((Add_key r2 key)\<lparr> data_block := block \<rparr>)) = Some r'"
    using assms(1) by (auto simp: Add_eq split: if_splits option.splits)
  have "filter_inv r2"
    using assms(2) Add_pending_fields(3,11)[OF p] by (simp add: filter_inv_def split: option.splits)
  then have "filter_inv ((Add_key r2 key)\<lparr> data_block := block \<rparr>)" by (rule filter_inv_AddKey)
  then show ?thesis using r' by (auto split: if_splits intro: Flush_filter_inv)
qed

lemma TableBuilder_new_invs:
  assumes "TableBuilder_new opt f = Some r0"
  shows "pending_inv r0" and "filter_inv r0"
  using assms
  by (auto simp: TableBuilder_new_def Rep_new_def Let_def pending_inv_def filter_inv_def StartBlock_length
      kFilterBase_def kFilterBaseLg_def dest!: StartBlock_length split: option.splits)

lemma run_pending_inv:
  "run env r ops = Some r' \<Longrightarrow> pending_inv r \<Longrightarrow> pending_inv r'"
proof (induction ops arbitrary: r)
  case Nil
  then show ?case by simp
next
  case (Cons x xs)
  from Cons.prems(1) obtain r1 where s: "apply_op env r x = Some r1" and rest: "run env r1 xs = Some r'"
    by (auto split: option.splits)
  have "pending_inv r1" using s Cons.prems(2) by (cases x) (auto intro: Add_pending_inv Flush_pending_inv)
  then show ?case using Cons.IH[OF rest] by simp
qed

lemma run_filter_inv:
  "run env r ops = Some r' \<Longrightarrow> filter_inv r \<Longrightarrow> filter_inv r'"
proof (induction ops arbitrary: r)
  case Nil
  then show ?case by simp
next
  case (Cons x xs)
  from Cons.prems(1) obtain r1 where s: "apply_op env r x = Some r1" and rest: "run env r1 xs = Some r'"
    by (auto split: option.splits)
  have "filter_inv r1" using s Cons.prems(2) by (cases x) (auto intro: Add_filter_inv Flush_filter_inv)
  then show ?case using Cons.IH[OF rest] by simp
qed

lemma Finish_filter_keeps:
  assumes "Finish_filter env r = (r3, h)"
  shows "data_block r3 = data_block r" and "pending_index_entry r3 = pending_index_entry r"
proof -
  show "data_block r3 = data_block r"
    using assms
    by (auto simp: Finish_filter_def frame_eq_def split: option.splits if_splits prod.splits
        dest!: WriteRawBlock_frame(1))
  show "pending_index_entry r3 = pending_index_entry r"
    using assms
    by (auto simp: Finish_filter_def frame_eq_def split: option.splits if_splits prod.splits
        dest!: WriteRawBlock_frame(1))
qed

lemma Finish_metaindex_keeps:
  assumes "Finish_metaindex env r fh = Some (r4, h)"
  shows "data_block r4 = data_block r" and "pending_index_entry r4 = pending_index_entry r"
proof -
  show "data_block r4 = data_block r"
    using assms
    by (auto simp: Finish_metaindex_def frame_eq_def split: option.splits if_splits
        dest!: WriteBlock_frame(1))
  show "pending_index_entry r4 = pending_index_entry r"
    using assms
    by (auto simp: Finish_metaindex_def frame_eq_def split: option.splits if_splits
        dest!: WriteBlock_frame(1))
qed

lemma Finish_index_keeps:
  assumes "Finish_index env r = Some (r5, h)"
  shows "data_block r5 = data_block r" and "pending_index_entry r5 \<Longrightarrow> pending_index_entry r"
proof -
  show "data_block r5 = data_block r"
    using assms
    by (auto simp: Finish_index_def Let_def frame_eq_def split: option.splits if_splits
        dest!: WriteBlock_frame(1))
  show "pending_index_entry r5 \<Longrightarrow> pending_index_entry r"
    using assms
    by (auto simp: Finish_index_def Let_def frame_eq_def split: option.splits if_splits
        dest!: WriteBlock_frame(1))
qed

lemma Finish_footer_keeps [simp]:
  "data_block (Finish_footer r mh ih) = data_block r"
  "pending_index_entry (Finish_footer r mh ih) = pending_index_entry r"
  by (simp_all add: Finish_footer_def Let_def split: prod.splits)

lemma Finish_pending_inv:
  assumes "Finish env r = Some r'" and "pending_inv r"
  shows "pending_inv r'"
proof -
  from assms(1) obtain r1 r3 fh r4 mh r5 ih where
    f: "Flush env r = Some r1" and
    s3: "Finish_filter env (r1\<lparr> closed := True \<rparr>) = (r3, fh)" and
    s4: "Finish_metaindex env r3 fh = Some (r4, mh)" and
    s5: "Finish_index env r4 = Some (r5, ih)" and
    r': "r' = Finish_footer r5 mh ih"
    by (auto simp: Finish_def Let_def split: option.splits if_splits prod.splits)
  have p1: "pending_inv r1" using f assms(2) by (rule Flush_pending_inv)
  have "data_block r' = data_block r1"
    using Finish_filter_keeps(1)[OF s3] Finish_metaindex_keeps(1)[OF s4] Finish_index_keeps(1)[OF s5] r'
    by simp
  moreover have "pending_index_entry r' \<Longrightarrow> pending_index_entry r1"
    using Finish_filter_keeps(2)[OF s3] Finish_metaindex_keeps(2)[OF s4] Finish_index_keeps(2)[OF s5] r'
    by simp
  ultimately show ?thesis using p1 by (auto simp: pending_inv_def)
qed

text \<open>
  Claim C5.  Whenever \<open>pending_index_entry\<close> is true the data block is empty: the
  constructor establishes this, and \<open>Add\<close>, \<open>Flush\<close>, \<open>Finish\<close> and hence every sequence
  of calls keep it.
\<close>

theorem pending_index_entry_invariant:
  "(TableBuilder_new opt f = Some r0 \<longrightarrow> pending_inv r0) \<and>
   (pending_inv r \<and> Add env r key val = Some r1 \<longrightarrow> pending_inv r1) \<and>
   (pending_inv r \<and> Flush env r = Some r2 \<longrightarrow> pending_inv r2) \<and>
   (pending_inv r \<and> Finish env r = Some r3 \<longrightarrow> pending_inv r3) \<and>
   (build env opt f ops = Some r4 \<longrightarrow> pending_inv r4)"
proof -
  have "pending_inv r4" if b: "build env opt f ops = Some r4"
  proof -
    from b obtain ra rb where "TableBuilder_new opt f = Some ra" "run env ra ops = Some rb"
      "Finish env rb = Some r4"
      by (auto simp: build_def split: option.splits)
    then show ?thesis
      using TableBuilder_new_invs(1) run_pending_inv Finish_pending_inv by blast
  qed
  then show ?thesis
    by (auto intro: TableBuilder_new_invs(1) Add_pending_inv Flush_pending_inv Finish_pending_inv)
qed

lemmas example_defs =
  TableBuilder_new_def Rep_new_def example_options_def example_file_def StartBlock_def
  FilterBlockBuilder_new_def kFilterBase_def kFilterBaseLg_def Let_def BlockBuilder_new_def BlockHandle_new_def
  Add_def Flush_def ok_def AddKey_def BlockBuilder_Add_def example_comparator_def CurrentSizeEstimate_def
  BlockBuilder_empty_def WriteBlock_def WriteRawBlock_def BlockBuilder_Finish_def File_Append_def File_Flush_def
  example_env_def kBlockTrailerSize_def PutVarint32_def EncodeFixed32_def BlockBuilder_Reset_def
  example_policy_def PutVarint.simps StartBlock_loop.simps shared_loop.simps GenerateFilter_def
  build_def Finish_def Finish_filter_def Finish_metaindex_def Finish_index_def
  Finish_footer_def FilterBlockBuilder_Finish_def filter_prefix_def EncodeTo_def PutVarint64_def
  Footer_EncodeTo_def split_def

theorem pending_index_entry_invariant_witness:
  "\<exists>r0 r1 r2 r3.
     TableBuilder_new example_options example_file = Some r0 \<and> pending_inv r0 \<and>
     Add example_env r0 [0x61] [0x31] = Some r1 \<and> pending_inv r1 \<and> \<not> pending_index_entry r1 \<and>
     Flush example_env r1 = Some r2 \<and> pending_inv r2 \<and> pending_index_entry r2 \<and>
     Finish example_env r2 = Some r3 \<and> pending_inv r3 \<and>
     build example_env example_options example_file [OpAdd [0x61] [0x31], OpFlush] = Some r3"
proof -
  define r0 where "r0 = the (TableBuilder_new example_options example_file)"
  define r1 where "r1 = the (Add example_env r0 [0x61] [0x31])"
  define r2 where "r2 = the (Flush example_env r1)"
  define r3 where "r3 = the (Finish example_env r2)"
  have 0: "TableBuilder_new example_options example_file = Some r0"
    unfolding r0_def by (simp add: example_defs)
  have 1: "Add example_env r0 [0x61] [0x31] = Some r1" and n1: "\<not> pending_index_entry r1"
    unfolding r1_def r0_def by (simp_all add: example_defs)
  have 2: "Flush example_env r1 = Some r2" and n2: "pending_index_entry r2"
    unfolding r2_def r1_def r0_def by (simp_all add: example_defs)
  have 4: "Finish example_env r2 = Some r3"
    unfolding r3_def r2_def r1_def r0_def by (simp add: example_defs)
  have 3: "build example_env example_options example_file [OpAdd [0x61] [0x31], OpFlush] = Some r3"
    using 0 1 2 4 by (simp add: build_def)
  have "pending_inv r0"
    using pending_index_entry_invariant[of example_options example_file r0] 0 by blast
  moreover have "pending_inv r1"
    using pending_index_entry_invariant[of example_options example_file r0 r0 example_env "[0x61]" "[0x31]" r1]
      0 1 by blast
  moreover have "pending_inv r2"
    using pending_index_entry_invariant[of example_options example_file r0 r1 example_env _ _ _ r2]
      \<open>pending_inv r1\<close> 2 by blast
  moreover have "pending_inv r3"
    using pending_index_entry_invariant[of example_options example_file r0 r2 example_env _ _ _ _ r3]
      \<open>pending_inv r2\<close> 4 by blast
  ultimately show ?thesis using 0 1 2 3 4 n1 n2 by blast
qed

text \<open>
  Claim C3, as the code has it.  After a flush, the number of filters that the filter
  block builder has emitted is the file offset just past the block and its trailer, divided
  by \<open>2 ^ 11\<close> and rounded down (not up): \<open>StartBlock\<close> computes
  \<open>block_offset / kFilterBase\<close> and generates filters until there are that many.  This
  holds whatever the sink answers.
\<close>

theorem filter_count_after_flush:
  assumes "TableBuilder_new opt f = Some r0" and "run env r0 ops = Some r"
    and "Flush env r = Some r'" and "filter_block r' = Some fb"
  shows "length (fb_filter_offsets fb) = offset r' div 2 ^ 11"
proof -
  have "filter_inv r0" using assms(1) by (rule TableBuilder_new_invs(2))
  then have "filter_inv r" using assms(2) by (auto intro: run_filter_inv)
  then have "filter_inv r'" using assms(3) by (auto intro: Flush_filter_inv)
  then show ?thesis using assms(4) by (simp add: filter_inv_def kFilterBase_def kFilterBaseLg_def)
qed

theorem filter_count_after_flush_witness:
  "\<exists>r0 r r' fb.
     TableBuilder_new example_options example_file = Some r0 \<and>
     run example_env r0 [OpAdd [0x61] [0x31]] = Some r \<and>
     Flush example_env r = Some r' \<and> filter_block r' = Some fb \<and>
     offset r' = 18 \<and> length (fb_filter_offsets fb) = offset r' div 2 ^ 11"
proof -
  define r0 where "r0 = the (TableBuilder_new example_options example_file)"
  define r where "r = the (run example_env r0 [OpAdd [0x61] [0x31]])"
  define r' where "r' = the (Flush example_env r)"
  define fb where "fb = the (filter_block r')"
  have 0: "TableBuilder_new example_options example_file = Some r0"
    unfolding r0_def by (simp add: example_defs)
  have 1: "run example_env r0 [OpAdd [0x61] [0x31]] = Some r"
    unfolding r_def r0_def by (simp add: example_defs)
  have 2: "Flush example_env r = Some r'" and 3: "filter_block r' = Some fb" and 4: "offset r' = 18"
    unfolding fb_def r'_def r_def r0_def by (simp_all add: example_defs)
  show ?thesis
    using filter_count_after_flush[OF 0 1 2 3] 0 1 2 3 4 by blast
qed

theorem filter_count_ceiling_counterexample:
  "case Option.bind (TableBuilder_new example_options example_file)
          (\<lambda>r0. run example_env r0 [OpAdd [0x61] [0x31], OpFlush]) of
     None \<Rightarrow> False
   | Some r \<Rightarrow>
       (case filter_block r of
          None \<Rightarrow> False
        | Some fb \<Rightarrow>
            offset r = 18 \<and> length (fb_filter_offsets fb) = 0 \<and>
            \<not> length (fb_filter_offsets fb) \<ge> (offset r + 2 ^ 11 - 1) div 2 ^ 11)"
  by (simp add: example_defs)

text \<open>
  Claim C6.  With snappy compression enabled and a compressor that returns \<open>compressed\<close>
  for the finished block \<open>raw\<close>, \<open>WriteBlock\<close> hands the compressed bytes (type 1) to
  the file exactly if \<open>compressed.len < raw.len - raw.len / 8\<close>, and the raw bytes
  (type 0) otherwise; the handle carries the size of what was written.
\<close>

theorem write_block_snappy_threshold:
  assumes "compression (options r) = kSnappyCompression" and "ok r" and "sink_ok (rep_file r)"
    and "Snappy_Compress env (snd (BlockBuilder_Finish block)) = Some compressed"
  shows "map_option (\<lambda>(r', block', handle). (appended (rep_file r'), bh_size handle)) (WriteBlock env r block) =
         Some (if length compressed < length (snd (BlockBuilder_Finish block))
                    - length (snd (BlockBuilder_Finish block)) div 8
               then (appended (rep_file r) @
                       [compressed,
                        1 # EncodeFixed32 (crc32c_Mask (crc32c_Extend env (crc32c_Value env compressed) [1]))],
                     length compressed)
               else (appended (rep_file r) @
                       [snd (BlockBuilder_Finish block),
                        0 # EncodeFixed32 (crc32c_Mask (crc32c_Extend env
                              (crc32c_Value env (snd (BlockBuilder_Finish block))) [0]))],
                     length (snd (BlockBuilder_Finish block))))"
proof -
  let ?raw = "snd (BlockBuilder_Finish block)"
  let ?c = "fst (chosen_block env (options r) ?raw)"
  let ?t = "snd (chosen_block env (options r) ?raw)"
  obtain r1 h1 where w: "WriteRawBlock env r ?c ?t = (r1, h1)" by force
  have eq: "WriteBlock env r block = Some (r1\<lparr> compressed_output := [] \<rparr>, BlockBuilder_Reset (fst (BlockBuilder_Finish block)), h1)"
    using assms(2) w by (simp add: WriteBlock_eq)
  have app: "appended (rep_file r1) = appended (rep_file r) @ [?c, block_trailer env ?c ?t]"
    using WriteRawBlock_sink_ok(3)[OF w assms(3)] .
  have h1: "bh_size h1 = length ?c" using WriteRawBlock_frame(3)[OF w] by simp
  show ?thesis
    using assms(1,4) app h1
    by (simp add: eq chosen_block_def block_trailer_def)
qed

theorem write_block_snappy_threshold_witness:
  "compression (options (Rep_new (example_options\<lparr> compression := kSnappyCompression \<rparr>) example_file))
     = kSnappyCompression \<and>
   ok (Rep_new (example_options\<lparr> compression := kSnappyCompression \<rparr>) example_file) \<and>
   sink_ok (rep_file (Rep_new (example_options\<lparr> compression := kSnappyCompression \<rparr>) example_file)) \<and>
   Snappy_Compress (example_env\<lparr> Snappy_Compress := (\<lambda>raw. Some (take 7 raw)) \<rparr>)
     (snd (BlockBuilder_Finish BlockBuilder_new)) = Some [0, 0, 0, 0, 1, 0, 0] \<and>
   snd (BlockBuilder_Finish BlockBuilder_new) = [0, 0, 0, 0, 1, 0, 0, 0] \<and>
   length [0, 0, 0, 0, 1, 0, 0 :: byte]
     = length (snd (BlockBuilder_Finish BlockBuilder_new)) - length (snd (BlockBuilder_Finish BlockBuilder_new)) div 8 \<and>
   map_option (\<lambda>(r', block', handle). (appended (rep_file r'), bh_size handle))
     (WriteBlock (example_env\<lparr> Snappy_Compress := (\<lambda>raw. Some (take 7 raw)) \<rparr>)
        (Rep_new (example_options\<lparr> compression := kSnappyCompression \<rparr>) example_file) BlockBuilder_new) =
     Some (appended (rep_file (Rep_new (example_options\<lparr> compression := kSnappyCompression \<rparr>) example_file)) @
             [snd (BlockBuilder_Finish BlockBuilder_new),
              0 # EncodeFixed32 (crc32c_Mask (crc32c_Extend (example_env\<lparr> Snappy_Compress := (\<lambda>raw. Some (take 7 raw)) \<rparr>)
                    (crc32c_Value (example_env\<lparr> Snappy_Compress := (\<lambda>raw. Some (take 7 raw)) \<rparr>)
                       (snd (BlockBuilder_Finish BlockBuilder_new))) [0]))],
           length (snd (BlockBuilder_Finish BlockBuilder_new)))"
proof -
  let ?r = "Rep_new (example_options\<lparr> compression := kSnappyCompression \<rparr>) example_file"
  let ?env = "example_env\<lparr> Snappy_Compress := (\<lambda>raw. Some (take 7 raw)) \<rparr>"
  have raw: "snd (BlockBuilder_Finish BlockBuilder_new) = [0, 0, 0, 0, 1, 0, 0, 0]"
    by (simp add: BlockBuilder_Finish_def BlockBuilder_new_def EncodeFixed32_def Let_def)
  have h1: "compression (options ?r) = kSnappyCompression"
    by (simp add: Rep_new_def example_options_def)
  have h2: "ok ?r" by (simp add: Rep_new_def ok_def)
  have h3: "sink_ok (rep_file ?r)" by (simp add: Rep_new_def sink_ok_def example_file_def)
  have h4: "Snappy_Compress ?env (snd (BlockBuilder_Finish BlockBuilder_new)) = Some [0, 0, 0, 0, 1, 0, 0]"
    by (simp add: raw)
  have len: "length [0, 0, 0, 0, 1, 0, 0 :: byte]
     = length (snd (BlockBuilder_Finish BlockBuilder_new)) - length (snd (BlockBuilder_Finish BlockBuilder_new)) div 8"
    by (simp add: raw)
  then have nlt: "\<not> length [0, 0, 0, 0, 1, 0, 0 :: byte]
     < length (snd (BlockBuilder_Finish BlockBuilder_new)) - length (snd (BlockBuilder_Finish BlockBuilder_new)) div 8"
    by linarith
  note t = write_block_snappy_threshold[OF h1 h2 h3 h4]
  show ?thesis
    by (intro conjI h1 h2 h3 h4 raw len) (simp only: t nlt if_False)
qed

section \<open>The block builder\<close>

lemma PutVarint_not_Nil [simp]: "PutVarint v \<noteq> []"
  by (subst PutVarint.simps) simp

lemma PutVarint32_not_Nil [simp]: "PutVarint32 v \<noteq> []"
  by (simp add: PutVarint32_def)

lemma shared_loop_done [simp]: "min_length \<le> shared \<Longrightarrow> shared_loop a b min_length shared = shared"
  by (subst shared_loop.simps) simp

section \<open>Legal input never fails an assertion\<close>

lemma shared_loop_props:
  "shared \<le> min_length \<Longrightarrow> min_length \<le> length a \<Longrightarrow> min_length \<le> length b \<Longrightarrow>
   take shared a = take shared b \<Longrightarrow>
   shared_loop a b min_length shared \<le> min_length \<and>
   take (shared_loop a b min_length shared) a = take (shared_loop a b min_length shared) b"
proof (induction a b min_length shared rule: shared_loop.induct)
  case (1 a b min_length shared)
  show ?case
  proof (cases "shared < min_length \<and> a ! shared = b ! shared")
    case True
    have "take (shared + 1) a = take (shared + 1) b"
      using True "1.prems" by (simp add: take_Suc_conv_app_nth)
    then show ?thesis
      using True "1.IH" "1.prems" by (subst (1 2 3) shared_loop.simps) simp
  next
    case False
    then show ?thesis
      using "1.prems" by (subst (1 2 3) shared_loop.simps) auto
  qed
qed

lemma BlockBuilder_Add_Some:
  assumes "\<not> bb_finished b" and "bb_counter b \<le> block_restart_interval opts"
    and "1 \<le> block_restart_interval opts"
    and "bb_buffer b = [] \<or> Compare (comparator opts) key (bb_last_key b) > 0"
  shows "\<exists>b'. BlockBuilder_Add opts b key val = Some b' \<and> \<not> bb_finished b' \<and>
           bb_counter b' \<le> block_restart_interval opts \<and> bb_last_key b' = key \<and>
           bb_buffer b' \<noteq> []"
proof (cases "bb_counter b < block_restart_interval opts")
  case True
  let ?m = "min (length (bb_last_key b)) (length key)"
  let ?s = "shared_loop (bb_last_key b) key ?m 0"
  have p: "?s \<le> ?m \<and> take ?s (bb_last_key b) = take ?s key"
    by (rule shared_loop_props) simp_all
  then have "take ?s (bb_last_key b) @ take (length key - ?s) (drop ?s key) = key"
    by simp
  then show ?thesis
    using assms True by (simp add: BlockBuilder_Add_def Let_def)
next
  case False
  then show ?thesis
    using assms by (simp add: BlockBuilder_Add_def Let_def)
qed


section \<open>Restart points\<close>

lemma common_prefix_Nil2 [simp]: "common_prefix xs [] = 0"
  by (cases xs) simp_all

lemma shared_loop_common_prefix:
  "shared \<le> min (length a) (length b) \<Longrightarrow> min_length = min (length a) (length b) \<Longrightarrow>
   shared_loop a b min_length shared = shared + common_prefix (drop shared a) (drop shared b)"
proof (induction a b min_length shared rule: shared_loop.induct)
  case (1 a b min_length shared)
  show ?case
  proof (cases "shared < min_length")
    case False
    then have "shared = min_length" using "1.prems" False by linarith
    then have "drop shared a = [] \<or> drop shared b = []" using "1.prems"(2) by auto
    then have "common_prefix (drop shared a) (drop shared b) = 0" by auto
    then show ?thesis using False by (subst shared_loop.simps) simp
  next
    case True
    then have la: "shared < length a" and lb: "shared < length b" using "1.prems"(2) by simp_all
    have da: "drop shared a = a ! shared # drop (Suc shared) a"
      using la by (simp add: Cons_nth_drop_Suc)
    have db: "drop shared b = b ! shared # drop (Suc shared) b"
      using lb by (simp add: Cons_nth_drop_Suc)
    show ?thesis
    proof (cases "a ! shared = b ! shared")
      case eq: True
      have "shared_loop a b min_length (shared + 1) =
              shared + 1 + common_prefix (drop (shared + 1) a) (drop (shared + 1) b)"
        using "1.IH" True eq "1.prems" by simp
      then show ?thesis
        using True eq by (subst shared_loop.simps) (simp add: da db)
    next
      case False
      then show ?thesis using True by (subst shared_loop.simps) (simp add: da db)
    qed
  qed
qed

lemma ceil_div:
  assumes "0 < (R :: nat)"
  shows "(n + R - 1) div R = (if n mod R = 0 then n div R else n div R + 1)"
proof -
  define q r where "q = n div R" and "r = n mod R"
  have n: "n = r + q * R" by (simp add: q_def r_def)
  have r: "r < R" using assms by (simp add: r_def)
  have R0: "R \<noteq> 0" using assms by simp
  show ?thesis
  proof (cases "r = 0")
    case True
    have "n + R - 1 = (R - 1) + q * R" using n True assms by simp
    also have "\<dots> div R = q + (R - 1) div R" by (rule div_mult_self1[OF R0])
    also have "(R - 1) div R = 0" using assms by simp
    finally show ?thesis using True by (simp add: q_def r_def)
  next
    case False
    have "n + R - 1 = (r - 1) + (q + 1) * R" using n False assms by simp
    also have "\<dots> div R = (q + 1) + (r - 1) div R" by (rule div_mult_self1[OF R0])
    also have "(r - 1) div R = 0" using r by simp
    finally show ?thesis using False by (simp add: q_def r_def)
  qed
qed

lemma restart_count_Suc:
  assumes "0 < R"
  shows "restart_count R (Suc n) =
           (if 0 < n \<and> n mod R = 0 then Suc (restart_count R n) else restart_count R n)"
    and "0 < n \<Longrightarrow> n mod R = 0 \<Longrightarrow> restart_count R n = n div R"
    and "(restart_count R (Suc n) - 1) * R \<le> n"
proof -
  have pos: "1 \<le> n div R" if "0 < n" "n mod R = 0"
  proof -
    have "n div R * R = n" using that(2) by (simp add: mod_eq_0_iff_dvd)
    then have "n div R \<noteq> 0" using that(1) by (metis mult_0 less_irrefl)
    then show ?thesis by simp
  qed
  have rc: "restart_count R n = max 1 (if n mod R = 0 then n div R else n div R + 1)"
    by (simp only: restart_count_def ceil_div[OF assms])
  have s: "Suc n + R - 1 = n + R" using assms by simp
  have "(n + R) div R = n div R + 1" using div_add_self2[of R n] assms by simp
  then have c: "restart_count R (Suc n) = n div R + 1"
    by (simp only: restart_count_def s)
  show "restart_count R (Suc n) =
           (if 0 < n \<and> n mod R = 0 then Suc (restart_count R n) else restart_count R n)"
  proof (cases "n = 0")
    case True
    then show ?thesis using assms unfolding c rc by simp
  next
    case False
    then have "n mod R = 0 \<Longrightarrow> 1 \<le> n div R" using pos by simp
    then show ?thesis using False assms unfolding c rc
      by auto
  qed
  show "restart_count R n = n div R" if "0 < n" "n mod R = 0"
  proof -
    have "1 \<le> n div R" using that pos by simp
    then show ?thesis using that unfolding rc by simp
  qed
  show "(restart_count R (Suc n) - 1) * R \<le> n" unfolding c by simp
qed

lemma restart_offsets_snoc:
  assumes "0 < R"
  shows "restart_offsets R (es @ [e]) =
           (if es \<noteq> [] \<and> length es mod R = 0
            then restart_offsets R es @ [of_nat (length (concat es))]
            else restart_offsets R es)"
proof -
  let ?n = "length es"
  let ?f = "\<lambda>xs i. of_nat (length (concat (take (i * R) xs))) :: u32"
  have same: "?f (es @ [e]) i = ?f es i" if "i < restart_count R (Suc ?n)" for i
  proof -
    have "i \<le> restart_count R (Suc ?n) - 1" using that by linarith
    then have "i * R \<le> (restart_count R (Suc ?n) - 1) * R" by (rule mult_le_mono1)
    then have "i * R \<le> ?n" using restart_count_Suc(3)[OF assms, of ?n] by linarith
    then show ?thesis by simp
  qed
  have m: "restart_offsets R (es @ [e]) = map (?f es) [0 ..< restart_count R (Suc ?n)]"
    unfolding restart_offsets_def using same by simp
  show ?thesis
  proof (cases "es \<noteq> [] \<and> ?n mod R = 0")
    case True
    then have c: "restart_count R (Suc ?n) = Suc (restart_count R ?n)"
      and d: "restart_count R ?n = ?n div R"
      using restart_count_Suc(1,2)[OF assms, of ?n] by simp_all
    have "restart_count R ?n * R = ?n" using True d by (simp add: mod_eq_0_iff_dvd)
    then show ?thesis using True unfolding m c by (simp add: restart_offsets_def)
  next
    case False
    then have c: "restart_count R (Suc ?n) = restart_count R ?n"
      using restart_count_Suc(1)[OF assms, of ?n] by auto
    show ?thesis using False unfolding m c by (simp add: restart_offsets_def)
  qed
qed

lemma length_restart_entries [simp]: "length (restart_entries R j prev xs) = length xs"
  by (induction xs arbitrary: j prev) (auto simp: Let_def)

lemma restart_entries_snoc:
  "restart_entries R j prev (xs @ [(key, val)]) =
     restart_entries R j prev xs @
       [let shared = (if (j + length xs) mod R = 0 then 0
                      else common_prefix (if xs = [] then prev else fst (last xs)) key)
        in block_entry shared (drop shared key) val]"
proof (induction xs arbitrary: j prev)
  case Nil
  then show ?case by (simp add: Let_def)
next
  case (Cons x xs)
  obtain k v where x: "x = (k, v)" by (cases x)
  show ?case unfolding x using Cons[of "Suc j" k] by (simp add: Let_def)
qed

lemma BlockBuilder_AddAll_snoc:
  "BlockBuilder_AddAll opts b (xs @ [(key, val)]) =
     (case BlockBuilder_AddAll opts b xs of None \<Rightarrow> None | Some b' \<Rightarrow> BlockBuilder_Add opts b' key val)"
proof (induction xs arbitrary: b)
  case Nil
  then show ?case by (simp split: option.splits)
next
  case (Cons x xs)
  obtain k v where x: "x = (k, v)" by (cases x)
  show ?case unfolding x using Cons by (simp split: option.splits)
qed

lemma ascending_snoc:
  "ascending cmp (ks @ [k]) = (ascending cmp ks \<and> (ks \<noteq> [] \<longrightarrow> Compare cmp k (last ks) > 0))"
proof (induction cmp ks rule: ascending.induct)
  case (3 cmp a b rest)
  then show ?case by auto
qed simp_all

lemma BlockBuilder_Add_step:
  assumes "\<not> bb_finished b" and "bb_counter b \<le> block_restart_interval opts"
    and "bb_buffer b = [] \<or> Compare (comparator opts) key (bb_last_key b) > 0"
  shows "BlockBuilder_Add opts b key val =
           Some (if bb_counter b < block_restart_interval opts
                 then b\<lparr> bb_buffer := bb_buffer b @
                            block_entry (common_prefix (bb_last_key b) key)
                              (drop (common_prefix (bb_last_key b) key) key) val,
                         bb_last_key := key, bb_counter := bb_counter b + 1 \<rparr>
                 else b\<lparr> bb_buffer := bb_buffer b @ block_entry 0 key val,
                         bb_restarts := bb_restarts b @ [of_nat (length (bb_buffer b))],
                         bb_last_key := key, bb_counter := 1 \<rparr>)"
proof (cases "bb_counter b < block_restart_interval opts")
  case True
  let ?m = "min (length (bb_last_key b)) (length key)"
  let ?s = "shared_loop (bb_last_key b) key ?m 0"
  have s: "?s = common_prefix (bb_last_key b) key"
    using shared_loop_common_prefix[of 0 "bb_last_key b" key ?m] by simp
  have p: "?s \<le> ?m \<and> take ?s (bb_last_key b) = take ?s key"
    by (rule shared_loop_props) simp_all
  then have k: "take ?s (bb_last_key b) @ take (length key - ?s) (drop ?s key) = key"
    by simp
  show ?thesis
    using assms True k
    by (simp add: BlockBuilder_Add_def Let_def block_entry_def s)
next
  case False
  then show ?thesis
    using assms by (simp add: BlockBuilder_Add_def Let_def block_entry_def)
qed

lemma counter_step:
  assumes "0 < (R :: nat)" and "0 < n"
  shows "(int ((n - 1) mod R) + 1 < int R) = (n mod R \<noteq> 0)"
    and "n mod R \<noteq> 0 \<Longrightarrow> int ((n - 1) mod R) + 1 = int (n mod R)"
    and "int ((n - 1) mod R) + 1 \<le> int R"
proof -
  obtain m where n: "n = Suc m" using assms(2) by (cases n) simp_all
  have lt: "m mod R < R" using assms(1) by simp
  show "(int ((n - 1) mod R) + 1 < int R) = (n mod R \<noteq> 0)"
    unfolding n using lt by (simp add: mod_Suc)
  show "int ((n - 1) mod R) + 1 = int (n mod R)" if "n mod R \<noteq> 0"
    using that unfolding n by (simp add: mod_Suc split: if_splits)
  show "int ((n - 1) mod R) + 1 \<le> int R"
    unfolding n using lt by simp
qed

lemma BlockBuilder_AddAll_restarts:
  assumes R: "0 < R" and opts: "block_restart_interval opts = int R"
  shows "ascending (comparator opts) (map fst entries) \<Longrightarrow>
         \<exists>b. BlockBuilder_AddAll opts BlockBuilder_new entries = Some b \<and>
             bb_buffer b = concat (restart_entries R 0 [] entries) \<and>
             bb_restarts b = restart_offsets R (restart_entries R 0 [] entries) \<and>
             \<not> bb_finished b \<and>
             bb_counter b = (if entries = [] then 0 else int ((length entries - 1) mod R) + 1) \<and>
             bb_last_key b = (if entries = [] then [] else fst (last entries))"
proof (induction entries rule: rev_induct)
  case Nil
  show ?case
    using R by (simp add: BlockBuilder_new_def restart_offsets_def restart_count_def)
next
  case (snoc x xs)
  obtain key val where x: "x = (key, val)" by (cases x)
  let ?n = "length xs"
  let ?es = "restart_entries R 0 [] xs"
  have asc: "ascending (comparator opts) (map fst xs)"
    and gt: "xs \<noteq> [] \<Longrightarrow> Compare (comparator opts) key (fst (last xs)) > 0"
    using snoc.prems by (simp_all add: x ascending_snoc last_map)
  from snoc.IH[OF asc] obtain b where
    I: "BlockBuilder_AddAll opts BlockBuilder_new xs = Some b \<and>
        bb_buffer b = concat ?es \<and> bb_restarts b = restart_offsets R ?es \<and> \<not> bb_finished b \<and>
        bb_counter b = (if xs = [] then 0 else int ((?n - 1) mod R) + 1) \<and>
        bb_last_key b = (if xs = [] then [] else fst (last xs))" ..
  note all = I[THEN conjunct1] and I1 = I[THEN conjunct2]
  note buf = I1[THEN conjunct1] and I2 = I1[THEN conjunct2]
  note res = I2[THEN conjunct1] and I3 = I2[THEN conjunct2]
  note fin = I3[THEN conjunct1] and I4 = I3[THEN conjunct2]
  note cnt = I4[THEN conjunct1] and lst = I4[THEN conjunct2]
  have le: "bb_counter b \<le> block_restart_interval opts"
    using cnt opts R counter_step(3)[OF R, of ?n] by (cases "xs = []") simp_all
  have cmp: "bb_buffer b = [] \<or> Compare (comparator opts) key (bb_last_key b) > 0"
    using gt lst buf by (cases "xs = []") simp_all
  note step = BlockBuilder_Add_step[OF fin le cmp, of val]
  have lt: "(bb_counter b < block_restart_interval opts) = (xs = [] \<or> ?n mod R \<noteq> 0)"
    using cnt opts R counter_step(1)[OF R, of ?n] by (cases "xs = []") simp_all
  let ?b' = "the (BlockBuilder_Add opts b key val)"
  have add: "BlockBuilder_AddAll opts BlockBuilder_new (xs @ [x]) = Some ?b'"
    unfolding x BlockBuilder_AddAll_snoc all using step by simp
  have snoc_es: "restart_entries R 0 [] (xs @ [x]) =
      ?es @ [let shared = (if ?n mod R = 0 then 0
                           else common_prefix (if xs = [] then [] else fst (last xs)) key)
             in block_entry shared (drop shared key) val]"
    unfolding x using restart_entries_snoc[of R 0 "[]" xs key val] by simp
  have nonempty: "(?es \<noteq> []) = (xs \<noteq> [])"
    by (metis length_restart_entries length_0_conv)
  show ?case
  proof (cases "xs = [] \<or> ?n mod R \<noteq> 0")
    case True
    then have c: "bb_counter b < block_restart_interval opts" using lt by simp
    have b': "?b' = b\<lparr> bb_buffer := bb_buffer b @
                            block_entry (common_prefix (bb_last_key b) key)
                              (drop (common_prefix (bb_last_key b) key) key) val,
                         bb_last_key := key, bb_counter := bb_counter b + 1 \<rparr>"
      unfolding step using c by simp
    have e: "restart_entries R 0 [] (xs @ [x]) =
               ?es @ [block_entry (common_prefix (bb_last_key b) key)
                        (drop (common_prefix (bb_last_key b) key) key) val]"
      unfolding snoc_es using True lst by (cases "xs = []") (simp_all add: Let_def)
    have r: "restart_offsets R (?es @ [block_entry (common_prefix (bb_last_key b) key)
                        (drop (common_prefix (bb_last_key b) key) key) val]) = restart_offsets R ?es"
      using True nonempty by (simp add: restart_offsets_snoc[OF R])
    have cn: "bb_counter b + 1 = int (?n mod R) + 1"
      using True cnt counter_step(2)[OF R, of ?n] by (cases "xs = []") simp_all
    show ?thesis
      apply (rule exI[of _ ?b'])
      apply (intro conjI)
           apply (rule add)
          apply (simp add: b' e buf)
         apply (simp add: b' e r res)
        apply (simp add: b' fin)
       apply (simp add: b' cn)
      apply (simp add: b' x)
      done
  next
    case False
    then have ne: "xs \<noteq> []" and z: "?n mod R = 0" by simp_all
    have c: "\<not> bb_counter b < block_restart_interval opts" using lt False by simp
    have b': "?b' = b\<lparr> bb_buffer := bb_buffer b @ block_entry 0 key val,
                         bb_restarts := bb_restarts b @ [of_nat (length (bb_buffer b))],
                         bb_last_key := key, bb_counter := 1 \<rparr>"
      unfolding step using c by simp
    have e: "restart_entries R 0 [] (xs @ [x]) = ?es @ [block_entry 0 key val]"
      unfolding snoc_es using z by (simp add: Let_def)
    have r: "restart_offsets R (?es @ [block_entry 0 key val]) =
               restart_offsets R ?es @ [of_nat (length (concat ?es))]"
      using ne z nonempty by (simp add: restart_offsets_snoc[OF R])
    show ?thesis
      apply (rule exI[of _ ?b'])
      apply (intro conjI)
           apply (rule add)
          apply (simp add: b' e buf)
         apply (simp add: b' e r res buf)
        apply (simp add: b' fin)
       apply (simp add: b' z)
      apply (simp add: b' x)
      done
  qed
qed

text \<open>
  Claim C7.  The block builder restarts prefix compression exactly every \<open>R\<close> entries:
  for a restart interval \<open>R \<ge> 1\<close> and any list of entries with ascending keys, every
  \<open>Add\<close> succeeds and the block built is the one of \<open>restart_entries\<close>, in which entry \<open>j\<close>
  is stored with \<open>shared = 0\<close> and its full key exactly when \<open>j\<close> is a multiple of \<open>R\<close> and
  every other entry with the longest prefix it shares with the key before it; the restart
  array holds the offsets of the entries \<open>0\<close>, \<open>R\<close>, \<open>2 * R\<close>, ..., so \<open>ceil(n / R)\<close> of them
  for \<open>n \<ge> 1\<close> entries, and the finished block is the entries, the restart array and its
  length.  For \<open>R = 3\<close> and the keys \<open>aa\<close>, \<open>ab\<close>, \<open>ac\<close>, \<open>ad\<close> the entries 0 and 3 have
  \<open>shared = 0\<close>, the entries 1 and 2 have \<open>shared = 1\<close>, and the restart array has two
  entries.
\<close>

theorem block_builder_restart_every_R:
  assumes "0 < R" and "block_restart_interval opts = int R"
    and "ascending (comparator opts) (map fst entries)"
  shows "\<exists>b. BlockBuilder_AddAll opts BlockBuilder_new entries = Some b \<and>
             bb_buffer b = concat (restart_entries R 0 [] entries) \<and>
             bb_restarts b = restart_offsets R (restart_entries R 0 [] entries) \<and>
             length (bb_restarts b) = restart_count R (length entries) \<and>
             snd (BlockBuilder_Finish b) =
               concat (restart_entries R 0 [] entries)
               @ concat (map EncodeFixed32 (restart_offsets R (restart_entries R 0 [] entries)))
               @ EncodeFixed32 (of_nat (restart_count R (length entries)))"
proof -
  let ?es = "restart_entries R 0 [] entries"
  from BlockBuilder_AddAll_restarts[OF assms] obtain b where
    I: "BlockBuilder_AddAll opts BlockBuilder_new entries = Some b \<and>
        bb_buffer b = concat ?es \<and> bb_restarts b = restart_offsets R ?es \<and> \<not> bb_finished b \<and>
        bb_counter b = (if entries = [] then 0 else int ((length entries - 1) mod R) + 1) \<and>
        bb_last_key b = (if entries = [] then [] else fst (last entries))" ..
  note all = I[THEN conjunct1] and I1 = I[THEN conjunct2]
  note buf = I1[THEN conjunct1] and I2 = I1[THEN conjunct2]
  note res = I2[THEN conjunct1]
  have len: "length (bb_restarts b) = restart_count R (length entries)"
    unfolding res by (simp add: restart_offsets_def)
  have fin: "snd (BlockBuilder_Finish b) =
               concat ?es @ concat (map EncodeFixed32 (restart_offsets R ?es))
               @ EncodeFixed32 (of_nat (restart_count R (length entries)))"
    using len by (simp add: BlockBuilder_Finish_def Let_def buf res)
  show ?thesis
    by (rule exI[of _ b]) (intro conjI all buf res len fin)
qed

theorem block_builder_restart_every_R_witness:
  "restart_entries 3 0 []
     [([0x61, 0x61], [1]), ([0x61, 0x62], [2]), ([0x61, 0x63], [3]), ([0x61, 0x64], [4])] =
     [block_entry 0 [0x61, 0x61] [1], block_entry 1 [0x62] [2], block_entry 1 [0x63] [3],
      block_entry 0 [0x61, 0x64] [4]] \<and>
   map_option (\<lambda>b. (bb_buffer b, bb_restarts b, snd (BlockBuilder_Finish b)))
     (BlockBuilder_AddAll example_options BlockBuilder_new
             [([0x61, 0x61], [1]), ([0x61, 0x62], [2]), ([0x61, 0x63], [3]), ([0x61, 0x64], [4])]) =
     Some ([0, 2, 1, 0x61, 0x61, 1,  1, 1, 1, 0x62, 2,  1, 1, 1, 0x63, 3,  0, 2, 1, 0x61, 0x64, 4],
           [0, 16],
           [0, 2, 1, 0x61, 0x61, 1,  1, 1, 1, 0x62, 2,  1, 1, 1, 0x63, 3,  0, 2, 1, 0x61, 0x64, 4,
            0, 0, 0, 0,  16, 0, 0, 0,  2, 0, 0, 0])"
proof -
  let ?entries = "[([0x61, 0x61], [1]), ([0x61, 0x62], [2]), ([0x61, 0x63], [3]), ([0x61, 0x64], [4])]
                    :: (bytes \<times> bytes) list"
  have R: "0 < (3 :: nat)" by simp
  have i: "block_restart_interval example_options = int 3" by (simp add: example_options_def)
  have a: "ascending (comparator example_options) (map fst ?entries)"
    by (simp add: example_options_def example_comparator_def)
  have e: "restart_entries 3 0 [] ?entries =
     [block_entry 0 [0x61, 0x61] [1], block_entry 1 [0x62] [2], block_entry 1 [0x63] [3],
      block_entry 0 [0x61, 0x64] [4]]"
    by (simp add: Let_def)
  have c: "restart_count 3 (length ?entries) = 2" by (simp add: restart_count_def)
  have u: "[0 ..< 2] = [0, Suc 0]" by (simp add: upt_rec)
  from block_builder_restart_every_R[OF R i a] obtain b where
    B: "BlockBuilder_AddAll example_options BlockBuilder_new ?entries = Some b \<and>
        bb_buffer b = concat (restart_entries 3 0 [] ?entries) \<and>
        bb_restarts b = restart_offsets 3 (restart_entries 3 0 [] ?entries) \<and>
        length (bb_restarts b) = restart_count 3 (length ?entries) \<and>
        snd (BlockBuilder_Finish b) =
               concat (restart_entries 3 0 [] ?entries)
               @ concat (map EncodeFixed32 (restart_offsets 3 (restart_entries 3 0 [] ?entries)))
               @ EncodeFixed32 (of_nat (restart_count 3 (length ?entries)))" ..
  have o: "restart_offsets 3 (restart_entries 3 0 [] ?entries) = [0, 16]"
    unfolding e by (simp add: restart_offsets_def restart_count_def u block_entry_def PutVarint32_def
        PutVarint.simps)
  have buf: "concat (restart_entries 3 0 [] ?entries) =
      [0, 2, 1, 0x61, 0x61, 1,  1, 1, 1, 0x62, 2,  1, 1, 1, 0x63, 3,  0, 2, 1, 0x61, 0x64, 4]"
    unfolding e by (simp add: block_entry_def PutVarint32_def PutVarint.simps)
  show ?thesis
    using B unfolding o buf c
    by (simp add: e EncodeFixed32_def)
qed

section \<open>The filters a filter block builder holds\<close>

lemma length_filters_upto [simp]: "length (filters_upto pol log m) = m"
  by (induction m) simp_all



lemma keys_in_snoc:
  "keys_in (log @ [(off, key)]) i = (if off div kFilterBase = i then keys_in log i @ [key] else keys_in log i)"
  by (simp add: keys_in_def)

lemma filters_upto_snoc:
  "m \<le> off div kFilterBase \<Longrightarrow> filters_upto pol (log @ [(off, key)]) m = filters_upto pol log m"
  by (induction m) (simp_all add: keys_in_snoc)

lemma keys_in_above:
  "\<forall>e \<in> set log. fst e div kFilterBase \<le> m \<Longrightarrow> m < i \<Longrightarrow> keys_in log i = []"
  by (auto simp: keys_in_def filter_empty_conv)

lemma offsets_of_Nil [simp]: "offsets_of [] = []"
  by (simp add: offsets_of_def)

lemma length_offsets_of [simp]: "length (offsets_of fs) = length fs"
  by (simp add: offsets_of_def)

lemma offsets_of_snoc: "offsets_of (fs @ [f]) = offsets_of fs @ [length (concat fs)]"
  by (simp add: offsets_of_def)

lemma offsets_of_eq_Nil [simp]: "(offsets_of fs = []) = (fs = [])"
  by (simp add: offsets_of_def)

lemma offsets_of_nth: "i < length fs \<Longrightarrow> offsets_of fs ! i = length (concat (take i fs))"
  by (simp add: offsets_of_def)

lemma offsets_ext_nth:
  "i \<le> length fs \<Longrightarrow> (offsets_of fs @ [length (concat fs)]) ! i = length (concat (take i fs))"
  by (cases "i = length fs") (simp_all add: nth_append offsets_of_nth)

lemma concat_take_Suc: "i < length fs \<Longrightarrow> concat (take (Suc i) fs) = concat (take i fs) @ fs ! i"
  by (simp add: take_Suc_conv_app_nth)

lemma drop_concat_take:
  "i < length fs \<Longrightarrow> drop (length (concat (take i fs))) (concat fs) = fs ! i @ concat (drop (Suc i) fs)"
proof -
  assume i: "i < length fs"
  have "concat fs = concat (take i fs) @ concat (drop i fs)"
    by (metis append_take_drop_id concat_append)
  moreover have "drop i fs = fs ! i # drop (Suc i) fs" using i by (simp add: Cons_nth_drop_Suc)
  ultimately have "concat fs = concat (take i fs) @ fs ! i @ concat (drop (Suc i) fs)" by simp
  then show ?thesis by (metis append_eq_conv_conj)
qed

text \<open>\<open>GenerateFilter\<close> gets back the keys from the flattened buffer.\<close>

lemma tmp_keys_eq:
  "map (\<lambda>i. take ((offsets_of ks @ [length (concat ks)]) ! Suc i - (offsets_of ks @ [length (concat ks)]) ! i)
               (drop ((offsets_of ks @ [length (concat ks)]) ! i) (concat ks)))
       [0 ..< length ks] = ks"
proof (rule nth_equalityI)
  show "length (map (\<lambda>i. take ((offsets_of ks @ [length (concat ks)]) ! Suc i - (offsets_of ks @ [length (concat ks)]) ! i)
               (drop ((offsets_of ks @ [length (concat ks)]) ! i) (concat ks))) [0 ..< length ks]) = length ks"
    by simp
next
  fix i
  assume "i < length (map (\<lambda>i. take ((offsets_of ks @ [length (concat ks)]) ! Suc i - (offsets_of ks @ [length (concat ks)]) ! i)
               (drop ((offsets_of ks @ [length (concat ks)]) ! i) (concat ks))) [0 ..< length ks])"
  then have i: "i < length ks" by simp
  have a: "(offsets_of ks @ [length (concat ks)]) ! i = length (concat (take i ks))"
    using i by (simp add: offsets_ext_nth)
  have b: "(offsets_of ks @ [length (concat ks)]) ! Suc i = length (concat (take i ks)) + length (ks ! i)"
    using i offsets_ext_nth[of "Suc i" ks] by (simp add: concat_take_Suc)
  show "map (\<lambda>i. take ((offsets_of ks @ [length (concat ks)]) ! Suc i - (offsets_of ks @ [length (concat ks)]) ! i)
               (drop ((offsets_of ks @ [length (concat ks)]) ! i) (concat ks))) [0 ..< length ks] ! i = ks ! i"
    using i by (simp add: a b drop_concat_take del: upt_Suc)
qed

lemma policy_appendsD:
  "policy_appends pol \<Longrightarrow> ks \<noteq> [] \<Longrightarrow> CreateFilter pol ks dst = dst @ made pol dst ks"
  by (metis append_take_drop_id made_def policy_appends_def)

lemma GenerateFilter_rep:
  assumes "fb_rep log m fb" and "policy_appends (fb_policy fb)"
  shows "fb_rep log (Suc m) (GenerateFilter fb)" and "fb_policy (GenerateFilter fb) = fb_policy fb"
proof -
  let ?pol = "fb_policy fb"
  let ?fs = "filters_upto ?pol log m"
  let ?ks = "keys_in log m"
  have res: "fb_result fb = concat ?fs" and offs: "fb_filter_offsets fb = map of_nat (offsets_of ?fs)"
    and keys: "fb_keys fb = concat ?ks" and start: "fb_start fb = offsets_of ?ks"
    and below: "\<forall>e \<in> set log. fst e div kFilterBase \<le> m"
    using assms(1) by (simp_all add: fb_rep_def)
  have above: "keys_in log (Suc m) = []" using below by (rule keys_in_above) simp
  have below': "\<forall>e \<in> set log. fst e div kFilterBase \<le> Suc m" using below by auto
  show "fb_policy (GenerateFilter fb) = fb_policy fb"
    by (simp add: GenerateFilter_def Let_def)
  show "fb_rep log (Suc m) (GenerateFilter fb)"
  proof (cases "?ks = []")
    case True
    then have "GenerateFilter fb = fb\<lparr> fb_filter_offsets := fb_filter_offsets fb @ [of_nat (length (fb_result fb))] \<rparr>"
      using start by (simp add: GenerateFilter_def Let_def)
    then show ?thesis
      using True res offs keys start above below'
      by (simp add: fb_rep_def made_def offsets_of_snoc)
  next
    case False
    then have ne: "length (fb_start fb) \<noteq> 0" using start by simp
    have tmp: "map (\<lambda>i. take ((fb_start fb @ [length (fb_keys fb)]) ! Suc i - (fb_start fb @ [length (fb_keys fb)]) ! i)
                  (drop ((fb_start fb @ [length (fb_keys fb)]) ! i) (fb_keys fb))) [0 ..< length (fb_start fb)] = ?ks"
      using tmp_keys_eq[of ?ks] by (simp add: start keys)
    have g: "GenerateFilter fb =
        fb\<lparr> fb_filter_offsets := fb_filter_offsets fb @ [of_nat (length (fb_result fb))],
            fb_result := CreateFilter ?pol ?ks (fb_result fb), fb_keys := [], fb_start := [] \<rparr>"
      using ne by (simp add: GenerateFilter_def Let_def tmp)
    have "CreateFilter ?pol ?ks (fb_result fb) = concat ?fs @ made ?pol (concat ?fs) ?ks"
      using policy_appendsD[OF assms(2) False] res by simp
    then show ?thesis
      using g res offs above below'
      by (simp add: fb_rep_def offsets_of_snoc)
  qed
qed

lemma fb_rep_length: "fb_rep log m fb \<Longrightarrow> length (fb_filter_offsets fb) = m"
  by (simp add: fb_rep_def)

lemma StartBlock_loop_rep:
  "fb_rep log m fb \<Longrightarrow> policy_appends (fb_policy fb) \<Longrightarrow> m \<le> n \<Longrightarrow>
   fb_rep log n (StartBlock_loop n fb) \<and> fb_policy (StartBlock_loop n fb) = fb_policy fb"
proof (induction "n - m" arbitrary: m fb)
  case 0
  then have "m = n" by simp
  then show ?case
    using "0.prems"(1) fb_rep_length[OF "0.prems"(1)] by (subst (1 2) StartBlock_loop.simps) simp
next
  case (Suc d)
  then have lt: "m < n" by simp
  have len: "length (fb_filter_offsets fb) = m" using Suc.prems(1) by (rule fb_rep_length)
  have g: "fb_rep log (Suc m) (GenerateFilter fb)" "fb_policy (GenerateFilter fb) = fb_policy fb"
    using GenerateFilter_rep[OF Suc.prems(1,2)] by simp_all
  have d: "d = n - Suc m" using Suc.hyps(2) by simp
  have pa: "policy_appends (fb_policy (GenerateFilter fb))" using g(2) Suc.prems(2) by simp
  have le: "Suc m \<le> n" using lt by simp
  have "fb_rep log n (StartBlock_loop n (GenerateFilter fb)) \<and>
        fb_policy (StartBlock_loop n (GenerateFilter fb)) = fb_policy (GenerateFilter fb)"
    using Suc.hyps(1)[OF d g(1) pa le] .
  then show ?case
    using lt len g(2) by (subst (1 2) StartBlock_loop.simps) simp
qed

lemma StartBlock_rep:
  assumes "fb_rep log m fb" and "policy_appends (fb_policy fb)" and "m \<le> off div kFilterBase"
  shows "\<exists>fb'. StartBlock fb off = Some fb' \<and> fb_rep log (off div kFilterBase) fb' \<and>
           fb_policy fb' = fb_policy fb"
  using StartBlock_loop_rep[OF assms] fb_rep_length[OF assms(1)] assms(3)
  by (simp add: StartBlock_def Let_def)

lemma AddKey_rep:
  assumes "fb_rep log m fb" and "off div kFilterBase = m"
  shows "fb_rep (log @ [(off, key)]) m (AddKey fb key)" and "fb_policy (AddKey fb key) = fb_policy fb"
  using assms
  by (auto simp: fb_rep_def AddKey_def keys_in_snoc filters_upto_snoc offsets_of_snoc)

lemma FilterBlockBuilder_Finish_rep:
  assumes "fb_rep log m fb" and "policy_appends (fb_policy fb)"
  shows "snd (FilterBlockBuilder_Finish fb) = filter_block_bytes (final_filters (fb_policy fb) log m)"
proof (cases "keys_in log m = []")
  case True
  then have "fb_start fb = []" using assms(1) by (simp add: fb_rep_def)
  then show ?thesis
    using True assms(1)
    by (simp add: FilterBlockBuilder_Finish_def Let_def filter_block_bytes_def final_filters_def fb_rep_def)
next
  case False
  then have ne: "fb_start fb \<noteq> []" using assms(1) by (simp add: fb_rep_def)
  have g: "fb_rep log (Suc m) (GenerateFilter fb)" "fb_policy (GenerateFilter fb) = fb_policy fb"
    using GenerateFilter_rep[OF assms] by simp_all
  have "fb_result (GenerateFilter fb) = concat (filters_upto (fb_policy fb) log (Suc m))"
    and "fb_filter_offsets (GenerateFilter fb) = map of_nat (offsets_of (filters_upto (fb_policy fb) log (Suc m)))"
    using g by (simp_all add: fb_rep_def)
  then show ?thesis
    using False ne
    by (simp add: FilterBlockBuilder_Finish_def Let_def filter_block_bytes_def final_filters_def)
qed

section \<open>Reading a filter block back\<close>

lemma unat_byte_of_nat: "x < 256 \<Longrightarrow> unat (of_nat x :: byte) = x"
  by (simp add: unat_of_nat)


lemma fixed32_digits:
  fixes n :: nat
  assumes "n < 2 ^ 32"
  shows "n mod 256 + 256 * (n div 256 mod 256) + 65536 * (n div 65536 mod 256)
          + 16777216 * (n div 16777216 mod 256) = n"
proof -
  define B where "B = n div 256"
  define C where "C = n div 65536"
  define D where "D = n div 16777216"
  have c: "B div 256 = C" by (simp add: B_def C_def div_mult2_eq)
  have d: "C div 256 = D" by (simp add: C_def D_def div_mult2_eq)
  have a1: "n = n mod 256 + 256 * B" by (simp add: B_def)
  have b1: "B = B mod 256 + 256 * C" using c by (metis mod_mult_div_eq)
  have c1: "C = C mod 256 + 256 * D" using d by (metis mod_mult_div_eq)
  have "D < 256" using assms by (simp add: D_def)
  then have d1: "D mod 256 = D" by simp
  have "n mod 256 + 256 * (B mod 256) + 65536 * (C mod 256) + 16777216 * (D mod 256) = n"
    using a1 b1 c1 d1 by linarith
  then show ?thesis unfolding B_def C_def D_def .
qed

lemma DecodeFixed32_EncodeFixed32 [simp]: "DecodeFixed32 (EncodeFixed32 w @ rest) = w"
proof -
  have lt: "unat w < 2 ^ 32" using unsigned_less[of w] by simp
  show ?thesis
    by (simp add: EncodeFixed32_def unat_byte_of_nat fixed32_digits[OF lt])
qed



lemma length_concat_EncodeFixed32 [simp]: "length (concat (map EncodeFixed32 ws)) = 4 * length ws"
  by (induction ws) simp_all

lemma length_concat_EncodeFixed32_comp [simp]:
  "length (concat (map (EncodeFixed32 \<circ> g) xs)) = 4 * length xs"
  by (induction xs) simp_all




section \<open>Legal input keeps the builder in a good state\<close>

lemma StartBlock_Some:
  "length (fb_filter_offsets fb) \<le> off div kFilterBase \<Longrightarrow> \<exists>fb'. StartBlock fb off = Some fb'"
  by (simp add: StartBlock_def Let_def)

lemma bytes_appended_snoc2:
  "appended f' = appended f @ [c, t] \<Longrightarrow> bytes_appended f' = bytes_appended f + length c + length t"
  by (simp add: bytes_appended_def)

lemma goodD:
  assumes "good base r"
  shows "\<not> closed r" "status r = OK" "ok r" "sink_ok (rep_file r)" "pending_inv r" "filter_inv r"
    "0 \<le> num_entries r" "pending_index_entry r \<Longrightarrow> num_entries r > 0"
    "\<not> bb_finished (data_block r)" "bb_counter (data_block r) \<le> block_restart_interval (options r)"
    "bb_buffer (data_block r) \<noteq> [] \<Longrightarrow> num_entries r > 0 \<and> bb_last_key (data_block r) = last_key r"
    "\<not> bb_finished (index_block r)" "bb_counter (index_block r) \<le> 1"
    "bb_buffer (index_block r) \<noteq> [] \<Longrightarrow>
       num_entries r > 0 \<and> Compare (comparator (options r)) (last_key r) (bb_last_key (index_block r)) > 0"
    "index_block_options r = (options r)\<lparr> block_restart_interval := 1 \<rparr>"
    "1 \<le> block_restart_interval (options r)" "comparator_ok (comparator (options r))"
    "bytes_appended (rep_file r) = base + offset r"
    "map_option fb_policy (filter_block r) = filter_policy (options r)"
  using assms by (simp_all add: good_def ok_def)

lemma Flush_good:
  assumes g: "good base r"
  shows "\<exists>r'. Flush env r = Some r' \<and> good base r' \<and> last_key r' = last_key r \<and>
           num_entries r' = num_entries r \<and> options r' = options r \<and> offset r \<le> offset r' \<and>
           (filter_block r' = None) = (filter_block r = None) \<and>
           (filter_rep log r \<longrightarrow> filter_rep log r')"
proof (cases "BlockBuilder_empty (data_block r)")
  case True
  then have "Flush env r = Some r" using goodD(1,3)[OF g] by (simp add: Flush_eq)
  then show ?thesis using g by simp
next
  case False
  then have ne: "bb_buffer (data_block r) \<noteq> []" by (simp add: BlockBuilder_empty_def)
  have np: "\<not> pending_index_entry r" using goodD(5)[OF g] False by (simp add: pending_inv_def)
  obtain r1 h c t where
    w: "WriteBlock env r (data_block r) = Some (r1, BlockBuilder_Reset (fst (BlockBuilder_Finish (data_block r))), h)"
    and fr: "frame_eq r r1" and st1: "status r1 = OK" and so1: "sink_ok (rep_file r1)"
    and app1: "appended (rep_file r1) = appended (rep_file r) @ [c, block_trailer env c t]"
    and off1: "offset r1 = offset r + (length c + 5)"
    using WriteBlock_sink_ok[OF goodD(3,4)[OF g], of env "data_block r"] by blast
  let ?b = "BlockBuilder_Reset (fst (BlockBuilder_Finish (data_block r)))"
  let ?r3 = "Flush_written r1 ?b h"
  have ok1: "ok r1" using st1 by (simp add: ok_def)
  have fl: "Flush env r = tell_filter ?r3"
    using goodD(1,3)[OF g] False np w by (simp add: Flush_eq)
  have m: "offset r div kFilterBase \<le> offset ?r3 div kFilterBase"
    using off1 by (simp add: div_le_mono)
  have fb3: "filter_block ?r3 = filter_block r" using fr by (simp add: frame_eq_def)
  have "\<exists>r'. tell_filter ?r3 = Some r'"
  proof (cases "filter_block r")
    case None
    then show ?thesis using fb3 by (simp add: tell_filter_def)
  next
    case (Some fb)
    then have "length (fb_filter_offsets fb) = offset r div kFilterBase"
      using goodD(6)[OF g] by (simp add: filter_inv_def)
    then obtain fb' where "StartBlock fb (offset ?r3) = Some fb'"
      using StartBlock_Some[of fb "offset ?r3"] m by auto
    then show ?thesis using fb3 Some by (simp add: tell_filter_def)
  qed
  then obtain r' where t: "tell_filter ?r3 = Some r'" by blast
  note tf = tell_filter_fields[OF t]
  have bytes: "bytes_appended (rep_file r') = base + offset r'"
    using tf(3,11) app1 off1 goodD(18)[OF g] by (simp add: bytes_appended_def)
  have so3: "status ?r3 = OK \<and> sink_ok (rep_file ?r3)"
    using Flush_written_sink_ok[OF so1 ok1] .
  have "good base r'"
    unfolding good_def
    using tf fr so3 goodD[OF g] ne ok1 bytes
    by (simp add: frame_eq_def pending_inv_def BlockBuilder_Reset_def BlockBuilder_Finish_def Let_def
        BlockBuilder_empty_def)
  moreover have "filter_rep log r'" if rep: "filter_rep log r"
  proof (cases "filter_block r")
    case None
    then show ?thesis using tf(15) fb3 by (simp add: filter_rep_def)
  next
    case (Some fb)
    then have pa: "policy_appends (fb_policy fb)" and fr0: "fb_rep log (offset r div kFilterBase) fb"
      using rep by (simp_all add: filter_rep_def)
    obtain fb' where sb: "StartBlock fb (offset ?r3) = Some fb'"
      and rep': "fb_rep log (offset ?r3 div kFilterBase) fb'" and pol: "fb_policy fb' = fb_policy fb"
      using StartBlock_rep[OF fr0 pa m] by blast
    have "r' = ?r3\<lparr> filter_block := Some fb' \<rparr>"
      using t fb3 Some sb by (simp add: tell_filter_def)
    then show ?thesis using rep' pol pa by (simp add: filter_rep_def)
  qed
  ultimately show ?thesis
    using fl t tf fr off1 fb3 by (simp add: frame_eq_def)
qed

lemma comparator_okD:
  assumes "comparator_ok cmp"
  shows "Compare cmp a b > 0 \<Longrightarrow> Compare cmp b c > 0 \<Longrightarrow> Compare cmp a c > 0"
    and "Compare cmp a b \<ge> 0 \<Longrightarrow> Compare cmp b c > 0 \<Longrightarrow> Compare cmp a c > 0"
    and "Compare cmp b a > 0 \<Longrightarrow> Compare cmp (FindShortestSeparator cmp a b) a \<ge> 0"
    and "Compare cmp b a > 0 \<Longrightarrow> Compare cmp b (FindShortestSeparator cmp a b) > 0"
    and "Compare cmp (FindShortSuccessor cmp a) a \<ge> 0"
  using assms unfolding comparator_ok_def by blast+

lemma Add_pending_good:
  assumes g: "good base r" and key: "num_entries r > 0 \<Longrightarrow> Compare (comparator (options r)) key (last_key r) > 0"
  shows "\<exists>r2. Add_pending r key = Some r2 \<and>
           \<not> bb_finished (index_block r2) \<and> bb_counter (index_block r2) \<le> 1 \<and>
           (bb_buffer (index_block r2) \<noteq> [] \<longrightarrow>
              num_entries r > 0 \<and> Compare (comparator (options r)) key (bb_last_key (index_block r2)) > 0)"
proof (cases "pending_index_entry r")
  case False
  then have "Add_pending r key = Some r" by (simp add: Add_pending_def)
  moreover have "num_entries r > 0 \<and> Compare (comparator (options r)) key (bb_last_key (index_block r)) > 0"
    if "bb_buffer (index_block r) \<noteq> []"
    using goodD(14)[OF g that] key comparator_okD(1)[OF goodD(17)[OF g]] by blast
  ultimately show ?thesis using goodD(12,13)[OF g] by simp
next
  case True
  let ?cmp = "comparator (options r)"
  let ?sep = "FindShortestSeparator ?cmp (last_key r) key"
  have n: "num_entries r > 0" using goodD(8)[OF g True] .
  have k: "Compare ?cmp key (last_key r) > 0" using key n by simp
  have s1: "Compare ?cmp ?sep (last_key r) \<ge> 0" and s2: "Compare ?cmp key ?sep > 0"
    using comparator_okD(3,4)[OF goodD(17)[OF g] k] by simp_all
  have e: "BlockBuilder_empty (data_block r)" using goodD(5)[OF g] True by (simp add: pending_inv_def)
  have iopts: "comparator (index_block_options r) = ?cmp" "block_restart_interval (index_block_options r) = 1"
    using goodD(15)[OF g] by simp_all
  have "bb_buffer (index_block r) = [] \<or> Compare (comparator (index_block_options r)) ?sep (bb_last_key (index_block r)) > 0"
    using goodD(14)[OF g] s1 comparator_okD(2)[OF goodD(17)[OF g]] iopts(1) by metis
  then obtain b' where add: "BlockBuilder_Add (index_block_options r) (index_block r) ?sep (EncodeTo (pending_handle r)) = Some b'"
    and b': "\<not> bb_finished b'" "bb_counter b' \<le> 1" "bb_last_key b' = ?sep"
    using BlockBuilder_Add_Some[of "index_block r" "index_block_options r" ?sep "EncodeTo (pending_handle r)"]
      goodD(12,13)[OF g] iopts(2) by auto
  have "Add_pending r key = Some (r\<lparr> last_key := ?sep, index_block := b', pending_index_entry := False \<rparr>)"
    using True e add by (simp add: Add_pending_def Let_def)
  then show ?thesis using b' n s2 by simp
qed

lemma Add_good:
  assumes g: "good base r" and key: "num_entries r > 0 \<Longrightarrow> Compare (comparator (options r)) key (last_key r) > 0"
  shows "\<exists>r'. Add env r key val = Some r' \<and> good base r' \<and> last_key r' = key \<and>
           num_entries r' > 0 \<and> options r' = options r \<and> offset r \<le> offset r' \<and>
           (filter_block r' = None) = (filter_block r = None) \<and>
           (filter_rep log r \<longrightarrow> filter_rep (log @ [(offset r, key)]) r')"
proof -
  obtain r2 where p: "Add_pending r key = Some r2"
    and i2: "\<not> bb_finished (index_block r2)" "bb_counter (index_block r2) \<le> 1"
      "bb_buffer (index_block r2) \<noteq> [] \<Longrightarrow>
         num_entries r > 0 \<and> Compare (comparator (options r)) key (bb_last_key (index_block r2)) > 0"
    using Add_pending_good[OF g key] by blast
  note pf = Add_pending_fields[OF p]
  have "bb_buffer (data_block r) = [] \<or> Compare (comparator (options r)) key (bb_last_key (data_block r)) > 0"
    using goodD(11)[OF g] key by (cases "bb_buffer (data_block r) = []") simp_all
  then obtain block where add: "BlockBuilder_Add (options r) (data_block r) key val = Some block"
    and bl: "\<not> bb_finished block" "bb_counter block \<le> block_restart_interval (options r)"
      "bb_last_key block = key" "bb_buffer block \<noteq> []"
    using BlockBuilder_Add_Some[of "data_block r" "options r" key val] goodD(9,10,16)[OF g] by auto
  let ?r5 = "(Add_key r2 key)\<lparr> data_block := block \<rparr>"
  have eq: "Add env r key val =
      (if CurrentSizeEstimate block \<ge> block_size (options r) then Flush env ?r5 else Some ?r5)"
  proof -
    have nk: "\<not> (num_entries r > 0 \<and> \<not> Compare (comparator (options r)) key (last_key r) > 0)"
      using key by blast
    show ?thesis
      using goodD(1,3)[OF g] nk p pf add by (cases "0 < num_entries r") (simp_all add: Add_eq)
  qed
  have fi: "filter_inv ?r5"
    using goodD(6)[OF g] pf(3,11) by (intro filter_inv_AddKey) (simp add: filter_inv_def split: option.splits)
  have pol5: "map_option fb_policy (filter_block ?r5) = filter_policy (options r)"
    using goodD(19)[OF g] pf(11) by (cases "filter_block r") (simp_all add: AddKey_def)
  have g5: "good base ?r5"
    unfolding good_def
    using goodD[OF g] pf i2 bl fi pol5
    by (simp add: pending_inv_def)
  have fb5: "(filter_block ?r5 = None) = (filter_block r = None)" using pf(11) by simp
  have rep5: "filter_rep (log @ [(offset r, key)]) ?r5" if rep: "filter_rep log r"
  proof (cases "filter_block r")
    case None
    then show ?thesis using pf(11) by (simp add: filter_rep_def)
  next
    case (Some fb)
    then have pa: "policy_appends (fb_policy fb)" and fr0: "fb_rep log (offset r div kFilterBase) fb"
      using rep by (simp_all add: filter_rep_def)
    show ?thesis
      using AddKey_rep[OF fr0 refl, of key] pa Some pf(3,11) by (simp add: filter_rep_def)
  qed
  have l5: "last_key ?r5 = key" and o5: "options ?r5 = options r" and off5: "offset ?r5 = offset r"
    using pf(3,4) by simp_all
  have n5: "num_entries ?r5 > 0" using pf(6) goodD(7)[OF g] by simp
  show ?thesis
  proof (cases "CurrentSizeEstimate block \<ge> block_size (options r)")
    case False
    have a: "Add env r key val = Some ?r5" using eq False by simp
    have b: "offset r \<le> offset ?r5" using off5 by simp
    have c: "filter_rep log r \<longrightarrow> filter_rep (log @ [(offset r, key)]) ?r5" using rep5 by simp
    show ?thesis
      by (rule exI[of _ ?r5]) (intro conjI a g5 l5 n5 o5 b fb5 c)
  next
    case True
    have "\<exists>r'. Flush env ?r5 = Some r' \<and> good base r' \<and> last_key r' = last_key ?r5 \<and>
           num_entries r' = num_entries ?r5 \<and> options r' = options ?r5 \<and> offset ?r5 \<le> offset r' \<and>
           (filter_block r' = None) = (filter_block ?r5 = None) \<and>
           (filter_rep (log @ [(offset r, key)]) ?r5 \<longrightarrow> filter_rep (log @ [(offset r, key)]) r')"
      by (rule Flush_good[OF g5])
    then obtain r' where R: "Flush env ?r5 = Some r' \<and> good base r' \<and> last_key r' = last_key ?r5 \<and>
           num_entries r' = num_entries ?r5 \<and> options r' = options ?r5 \<and> offset ?r5 \<le> offset r' \<and>
           (filter_block r' = None) = (filter_block ?r5 = None) \<and>
           (filter_rep (log @ [(offset r, key)]) ?r5 \<longrightarrow> filter_rep (log @ [(offset r, key)]) r')" ..
    note f = R[THEN conjunct1] and R1 = R[THEN conjunct2]
    note g' = R1[THEN conjunct1] and R2 = R1[THEN conjunct2]
    note l = R2[THEN conjunct1] and R3 = R2[THEN conjunct2]
    note n = R3[THEN conjunct1] and R4 = R3[THEN conjunct2]
    note o = R4[THEN conjunct1] and R5 = R4[THEN conjunct2]
    note off = R5[THEN conjunct1] and R6 = R5[THEN conjunct2]
    note fb' = R6[THEN conjunct1] and rep' = R6[THEN conjunct2]
    have a: "Add env r key val = Some r'" using eq True f by simp
    have b: "last_key r' = key" using l l5 by simp
    have c: "num_entries r' > 0" using n n5 by simp
    have d: "options r' = options r" using o o5 by simp
    have e: "offset r \<le> offset r'" using off off5 by simp
    have h: "(filter_block r' = None) = (filter_block r = None)" using fb' fb5 by simp
    have i: "filter_rep log r \<longrightarrow> filter_rep (log @ [(offset r, key)]) r'" using rep' rep5 by simp
    show ?thesis
      by (rule exI[of _ r']) (intro conjI a g' b c d e h i)
  qed
qed

lemma Flush_goodE:
  assumes "good base r"
  obtains r' where "Flush env r = Some r'" "good base r'" "last_key r' = last_key r"
    "num_entries r' = num_entries r" "options r' = options r" "offset r \<le> offset r'"
    "(filter_block r' = None) = (filter_block r = None)"
    "filter_rep log r \<longrightarrow> filter_rep log r'"
proof -
  from Flush_good[OF assms, of env log] obtain r' where
    R: "Flush env r = Some r' \<and> good base r' \<and> last_key r' = last_key r \<and>
        num_entries r' = num_entries r \<and> options r' = options r \<and> offset r \<le> offset r' \<and>
        (filter_block r' = None) = (filter_block r = None) \<and>
        (filter_rep log r \<longrightarrow> filter_rep log r')" ..
  note f = R[THEN conjunct1] and R1 = R[THEN conjunct2]
  note g' = R1[THEN conjunct1] and R2 = R1[THEN conjunct2]
  note l = R2[THEN conjunct1] and R3 = R2[THEN conjunct2]
  note n = R3[THEN conjunct1] and R4 = R3[THEN conjunct2]
  note o = R4[THEN conjunct1] and R5 = R4[THEN conjunct2]
  note off = R5[THEN conjunct1] and R6 = R5[THEN conjunct2]
  note fb' = R6[THEN conjunct1] and rep' = R6[THEN conjunct2]
  show ?thesis by (rule that[OF f g' l n o off fb' rep'])
qed

lemma Add_goodE:
  assumes "good base r" and "num_entries r > 0 \<Longrightarrow> Compare (comparator (options r)) key (last_key r) > 0"
  obtains r' where "Add env r key val = Some r'" "good base r'" "last_key r' = key"
    "num_entries r' > 0" "options r' = options r" "offset r \<le> offset r'"
    "(filter_block r' = None) = (filter_block r = None)"
    "filter_rep log r \<longrightarrow> filter_rep (log @ [(offset r, key)]) r'"
proof -
  from Add_good[OF assms, of env val log] obtain r' where
    R: "Add env r key val = Some r' \<and> good base r' \<and> last_key r' = key \<and>
           num_entries r' > 0 \<and> options r' = options r \<and> offset r \<le> offset r' \<and>
           (filter_block r' = None) = (filter_block r = None) \<and>
           (filter_rep log r \<longrightarrow> filter_rep (log @ [(offset r, key)]) r')" ..
  note f = R[THEN conjunct1] and R1 = R[THEN conjunct2]
  note g' = R1[THEN conjunct1] and R2 = R1[THEN conjunct2]
  note l = R2[THEN conjunct1] and R3 = R2[THEN conjunct2]
  note n = R3[THEN conjunct1] and R4 = R3[THEN conjunct2]
  note o = R4[THEN conjunct1] and R5 = R4[THEN conjunct2]
  note off = R5[THEN conjunct1] and R6 = R5[THEN conjunct2]
  note fb' = R6[THEN conjunct1] and rep' = R6[THEN conjunct2]
  show ?thesis by (rule that[OF f g' l n o off fb' rep'])
qed

lemma ascending_tail: "ascending cmp (a # ks) \<Longrightarrow> ascending cmp ks"
  by (cases ks) simp_all

lemma run_good:
  "good base r \<Longrightarrow> ascending_from r ops \<Longrightarrow>
   \<exists>r'. run env r ops = Some r' \<and> good base r' \<and> options r' = options r \<and>
        (filter_block r' = None) = (filter_block r = None) \<and>
        (filter_rep log r \<longrightarrow> filter_rep (log @ block_keys env r ops) r')"
proof (induction ops arbitrary: r log)
  case Nil
  then show ?case by simp
next
  case (Cons x xs)
  show ?case
  proof (cases x)
    case (OpAdd key val)
    have k: "num_entries r > 0 \<Longrightarrow> Compare (comparator (options r)) key (last_key r) > 0"
      using Cons.prems(2) OpAdd by (simp add: ascending_from_def)
    obtain r1 where a: "Add env r key val = Some r1" and g1: "good base r1" and l1: "last_key r1 = key"
      and n1: "num_entries r1 > 0" and o1: "options r1 = options r"
      and fb1: "(filter_block r1 = None) = (filter_block r = None)"
      and rep1: "filter_rep log r \<longrightarrow> filter_rep (log @ [(offset r, key)]) r1"
      using Add_goodE[OF Cons.prems(1) k, of env val log] by metis
    have asc: "ascending_from r1 xs"
      using Cons.prems(2) OpAdd l1 n1 o1
      by (auto simp: ascending_from_def split: if_splits dest: ascending_tail)
    from Cons.IH[OF g1 asc, of "log @ [(offset r, key)]"] obtain r' where
      R: "run env r1 xs = Some r' \<and> good base r' \<and> options r' = options r1 \<and>
          (filter_block r' = None) = (filter_block r1 = None) \<and>
          (filter_rep (log @ [(offset r, key)]) r1 \<longrightarrow>
             filter_rep ((log @ [(offset r, key)]) @ block_keys env r1 xs) r')" ..
    have bk: "log @ block_keys env r (x # xs) = (log @ [(offset r, key)]) @ block_keys env r1 xs"
      using OpAdd a goodD(3)[OF Cons.prems(1)] by simp
    show ?thesis
      using R a OpAdd o1 fb1 rep1 unfolding bk by (intro exI[of _ r']) simp
  next
    case OpFlush
    obtain r1 where a: "Flush env r = Some r1" and g1: "good base r1" and l1: "last_key r1 = last_key r"
      and n1: "num_entries r1 = num_entries r" and o1: "options r1 = options r"
      and fb1: "(filter_block r1 = None) = (filter_block r = None)"
      and rep1: "filter_rep log r \<longrightarrow> filter_rep log r1"
      using Flush_goodE[OF Cons.prems(1), of env log] by metis
    have asc: "ascending_from r1 xs"
      using Cons.prems(2) OpFlush l1 n1 o1 by (simp add: ascending_from_def split: if_splits)
    from Cons.IH[OF g1 asc, of log] obtain r' where
      R: "run env r1 xs = Some r' \<and> good base r' \<and> options r' = options r1 \<and>
          (filter_block r' = None) = (filter_block r1 = None) \<and>
          (filter_rep log r1 \<longrightarrow> filter_rep (log @ block_keys env r1 xs) r')" ..
    have bk: "block_keys env r (x # xs) = block_keys env r1 xs"
      using OpFlush a by simp
    show ?thesis
      using R a OpFlush o1 fb1 rep1 unfolding bk by (intro exI[of _ r']) simp
  qed
qed


section \<open>Opening a table\<close>

lemma fb_rep_new: "fb_rep [] 0 (FilterBlockBuilder_new pol)"
  by (simp add: fb_rep_def FilterBlockBuilder_new_def keys_in_def)

lemma StartBlock_new: "StartBlock (FilterBlockBuilder_new pol) 0 = Some (FilterBlockBuilder_new pol)"
  by (simp add: StartBlock_def Let_def FilterBlockBuilder_new_def StartBlock_loop.simps)

lemma TableBuilder_new_eq:
  "TableBuilder_new opt f = Some (Rep_new opt f)"
  by (cases "filter_policy opt")
     (simp_all add: TableBuilder_new_def Let_def Rep_new_def StartBlock_new)

lemma TableBuilder_new_good:
  assumes "1 \<le> block_restart_interval opt" and "comparator_ok (comparator opt)" and "sink_ok f"
  shows "good (bytes_appended f) (Rep_new opt f)"
  using assms
  by (cases "filter_policy opt")
     (simp_all add: good_def Rep_new_def pending_inv_def filter_inv_def BlockBuilder_new_def
       FilterBlockBuilder_new_def)

lemma filter_rep_new:
  "filter_policy opt = Some pol \<Longrightarrow> policy_appends pol \<Longrightarrow> filter_rep [] (Rep_new opt f)"
  using fb_rep_new[of pol]
  by (simp add: filter_rep_def Rep_new_def FilterBlockBuilder_new_def)

section \<open>Finishing a table\<close>

lemma File_Append_sink_ok:
  assumes "sink_ok f"
  shows "fst (File_Append f d) = OK" and "sink_ok (snd (File_Append f d))"
    and "appended (snd (File_Append f d)) = appended f @ [d]"
  using assms by (auto simp: File_Append_def sink_ok_def split: list.splits)

lemma Finish_footer_ok:
  assumes "status r = OK" and "sink_ok (rep_file r)" and "bytes_appended (rep_file r) = base + offset r"
  shows "status (Finish_footer r mh ih) = OK"
    and "bytes_appended (rep_file (Finish_footer r mh ih)) = base + offset (Finish_footer r mh ih)"
    and "appended (rep_file (Finish_footer r mh ih)) = appended (rep_file r) @ [Footer_EncodeTo mh ih]"
    and "closed (Finish_footer r mh ih) = closed r"
  using assms File_Append_sink_ok[OF assms(2), of "Footer_EncodeTo mh ih"]
  by (simp_all add: Finish_footer_def Let_def ok_def split_def bytes_appended_def)

lemma Finish_filter_ok:
  assumes "status r = OK" and "sink_ok (rep_file r)" and "bytes_appended (rep_file r) = base + offset r"
  obtains r3 fh where "Finish_filter env r = (r3, fh)" "status r3 = OK" "sink_ok (rep_file r3)"
    "bytes_appended (rep_file r3) = base + offset r3"
    "options r3 = options r" "index_block_options r3 = index_block_options r"
    "index_block r3 = index_block r" "last_key r3 = last_key r"
    "pending_index_entry r3 = pending_index_entry r" "closed r3 = closed r"
    "(filter_block r3 = None) = (filter_block r = None)"
    "appended (rep_file r3) =
       appended (rep_file r) @
         (case filter_block r of
            None \<Rightarrow> []
          | Some fb \<Rightarrow> [snd (FilterBlockBuilder_Finish fb),
                        block_trailer env (snd (FilterBlockBuilder_Finish fb)) kNoCompression])"
proof (cases "filter_block r")
  case None
  then have "Finish_filter env r = (r, BlockHandle_new)" by (simp add: Finish_filter_def)
  then show ?thesis using that[of r BlockHandle_new] assms None by simp
next
  case (Some fb)
  let ?c = "snd (FilterBlockBuilder_Finish fb)"
  let ?r = "r\<lparr> filter_block := Some (fst (FilterBlockBuilder_Finish fb)) \<rparr>"
  obtain r3 fh where w: "WriteRawBlock env ?r ?c kNoCompression = (r3, fh)" by force
  have so: "sink_ok (rep_file ?r)" using assms(2) by simp
  note a = WriteRawBlock_sink_ok[OF w so]
  note b = WriteRawBlock_frame[OF w]
  have ff: "Finish_filter env r = (r3, fh)"
    using Some assms(1) w by (simp add: Finish_filter_def ok_def split_def)
  have bytes: "bytes_appended (rep_file r3) = base + offset r3"
    using a(3,4) assms(3) by (simp add: bytes_appended_def)
  show ?thesis
    using that[OF ff a(1,2) bytes] b(1) a(3) Some by (simp add: frame_eq_def)
qed

lemma Finish_metaindex_ok:
  assumes "status r = OK" and "sink_ok (rep_file r)" and "bytes_appended (rep_file r) = base + offset r"
    and "1 \<le> block_restart_interval (options r)"
  obtains r4 mh c t where "Finish_metaindex env r fh = Some (r4, mh)" "status r4 = OK" "sink_ok (rep_file r4)"
    "bytes_appended (rep_file r4) = base + offset r4" "frame_eq r r4"
    "appended (rep_file r4) = appended (rep_file r) @ [c, t]"
proof -
  have okr: "ok r" using assms(1) by (simp add: ok_def)
  have "\<exists>mb. (case filter_block r of
                None \<Rightarrow> Some BlockBuilder_new
              | Some fb \<Rightarrow>
                  BlockBuilder_Add (options r) BlockBuilder_new
                    (filter_prefix @ Name (fb_policy fb)) (EncodeTo fh)) = Some mb"
  proof (cases "filter_block r")
    case None
    then show ?thesis by simp
  next
    case (Some fb)
    have "\<exists>b'. BlockBuilder_Add (options r) BlockBuilder_new (filter_prefix @ Name (fb_policy fb)) (EncodeTo fh) = Some b'"
      using BlockBuilder_Add_Some[of BlockBuilder_new "options r" "filter_prefix @ Name (fb_policy fb)" "EncodeTo fh"]
        assms(4)
      by (auto simp: BlockBuilder_new_def)
    then show ?thesis using Some by simp
  qed
  then obtain mb where mb: "(case filter_block r of
                None \<Rightarrow> Some BlockBuilder_new
              | Some fb \<Rightarrow>
                  BlockBuilder_Add (options r) BlockBuilder_new
                    (filter_prefix @ Name (fb_policy fb)) (EncodeTo fh)) = Some mb" ..
  from WriteBlock_sink_ok[OF okr assms(2), of env mb] obtain r4 h where
    W: "WriteBlock env r mb = Some (r4, BlockBuilder_Reset (fst (BlockBuilder_Finish mb)), h) \<and>
           frame_eq r r4 \<and> status r4 = OK \<and> sink_ok (rep_file r4) \<and> bh_offset h = offset r \<and>
           (\<exists>c t. appended (rep_file r4) = appended (rep_file r) @ [c, block_trailer env c t] \<and>
                   offset r4 = offset r + (length c + 5))"
    by blast
  then obtain c t where app: "appended (rep_file r4) = appended (rep_file r) @ [c, block_trailer env c t]"
    and off: "offset r4 = offset r + (length c + 5)" by blast
  have fm: "Finish_metaindex env r fh = Some (r4, h)"
    using okr mb W by (simp add: Finish_metaindex_def)
  have bytes: "bytes_appended (rep_file r4) = base + offset r4"
    using app off assms(3) by (simp add: bytes_appended_def)
  show ?thesis
    using that[OF fm _ _ bytes _ app] W by blast
qed

lemma Finish_index_ok:
  assumes "status r = OK" and "sink_ok (rep_file r)" and "bytes_appended (rep_file r) = base + offset r"
    and "\<not> bb_finished (index_block r)" and "bb_counter (index_block r) \<le> 1"
    and "bb_buffer (index_block r) \<noteq> [] \<Longrightarrow>
           Compare (comparator (options r)) (last_key r) (bb_last_key (index_block r)) > 0"
    and "index_block_options r = (options r)\<lparr> block_restart_interval := 1 \<rparr>"
    and "comparator_ok (comparator (options r))"
  obtains r5 ih c t where "Finish_index env r = Some (r5, ih)" "status r5 = OK" "sink_ok (rep_file r5)"
    "bytes_appended (rep_file r5) = base + offset r5" "closed r5 = closed r"
    "appended (rep_file r5) = appended (rep_file r) @ [c, t]"
proof -
  have okr: "ok r" using assms(1) by (simp add: ok_def)
  let ?cmp = "comparator (options r)"
  let ?suc = "FindShortSuccessor ?cmp (last_key r)"
  have "\<exists>r2. (if pending_index_entry r
              then
                (let r1 = r\<lparr> last_key := FindShortSuccessor (comparator (options r)) (last_key r) \<rparr>;
                     handle_encoding = EncodeTo (pending_handle r1)
                 in (case BlockBuilder_Add (index_block_options r1) (index_block r1) (last_key r1)
                            handle_encoding of
                       None \<Rightarrow> None
                     | Some block \<Rightarrow> Some (r1\<lparr> index_block := block, pending_index_entry := False \<rparr>)))
              else Some r) = Some r2 \<and> status r2 = OK \<and> rep_file r2 = rep_file r \<and> offset r2 = offset r \<and>
              closed r2 = closed r"
  proof (cases "pending_index_entry r")
    case False
    then show ?thesis using assms(1) by simp
  next
    case True
    have iopts: "comparator (index_block_options r) = ?cmp" "block_restart_interval (index_block_options r) = 1"
      using assms(7) by simp_all
    have "bb_buffer (index_block r) = [] \<or>
          Compare (comparator (index_block_options r)) ?suc (bb_last_key (index_block r)) > 0"
      using assms(6) comparator_okD(2)[OF assms(8) comparator_okD(5)[OF assms(8)]] iopts(1) by metis
    then obtain b' where "BlockBuilder_Add (index_block_options r) (index_block r) ?suc (EncodeTo (pending_handle r)) = Some b'"
      using BlockBuilder_Add_Some[of "index_block r" "index_block_options r" ?suc "EncodeTo (pending_handle r)"]
        assms(4,5) iopts(2) by auto
    then show ?thesis using True assms(1) by (simp add: Let_def)
  qed
  then obtain r2 where r2: "(if pending_index_entry r
              then
                (let r1 = r\<lparr> last_key := FindShortSuccessor (comparator (options r)) (last_key r) \<rparr>;
                     handle_encoding = EncodeTo (pending_handle r1)
                 in (case BlockBuilder_Add (index_block_options r1) (index_block r1) (last_key r1)
                            handle_encoding of
                       None \<Rightarrow> None
                     | Some block \<Rightarrow> Some (r1\<lparr> index_block := block, pending_index_entry := False \<rparr>)))
              else Some r) = Some r2" and st2: "status r2 = OK" and f2: "rep_file r2 = rep_file r"
    and o2: "offset r2 = offset r" and c2: "closed r2 = closed r"
    by blast
  have ok2: "ok r2" using st2 by (simp add: ok_def)
  have so2: "sink_ok (rep_file r2)" using f2 assms(2) by simp
  from WriteBlock_sink_ok[OF ok2 so2, of env "index_block r2"] obtain r3 h where
    W: "WriteBlock env r2 (index_block r2) = Some (r3, BlockBuilder_Reset (fst (BlockBuilder_Finish (index_block r2))), h) \<and>
           frame_eq r2 r3 \<and> status r3 = OK \<and> sink_ok (rep_file r3) \<and> bh_offset h = offset r2 \<and>
           (\<exists>c t. appended (rep_file r3) = appended (rep_file r2) @ [c, block_trailer env c t] \<and>
                   offset r3 = offset r2 + (length c + 5))"
    by blast
  then obtain c t where app: "appended (rep_file r3) = appended (rep_file r2) @ [c, block_trailer env c t]"
    and off: "offset r3 = offset r2 + (length c + 5)" by blast
  let ?r5 = "r3\<lparr> index_block := BlockBuilder_Reset (fst (BlockBuilder_Finish (index_block r2))) \<rparr>"
  have fi: "Finish_index env r = Some (?r5, h)"
    using okr r2 W by (simp add: Finish_index_def)
  have bytes: "bytes_appended (rep_file ?r5) = base + offset ?r5"
    using app off assms(3) f2 o2 by (simp add: bytes_appended_def)
  have app5: "appended (rep_file ?r5) = appended (rep_file r) @ [c, block_trailer env c t]"
    using app f2 by simp
  have "status ?r5 = OK" "sink_ok (rep_file ?r5)" "closed ?r5 = closed r"
    using W c2 by (simp_all add: frame_eq_def)
  then show ?thesis
    using that[OF fi _ _ bytes _ app5] by blast
qed


lemma Finish_good:
  assumes g: "good base r"
  obtains r' where "Finish env r = Some r'" "status r' = OK" "closed r'"
    "bytes_appended (rep_file r') = base + offset r'"
    "\<And>pol. filter_policy (options r) = Some pol \<Longrightarrow> filter_rep log r \<Longrightarrow>
       \<exists>m. written_filter_block r' = filter_block_bytes (final_filters pol log m) \<and>
           (\<forall>e \<in> set log. fst e div kFilterBase \<le> m)"
proof -
  from Flush_goodE[OF g, of env log] obtain r1 where
    f1: "Flush env r = Some r1" and g1: "good base r1" and o1: "options r1 = options r"
    and fr1: "filter_rep log r \<longrightarrow> filter_rep log r1"
    by metis
  note d1 = goodD[OF g1]
  define r2 where "r2 = r1\<lparr> closed := True \<rparr>"
  have r2: "status r2 = OK" "sink_ok (rep_file r2)" "bytes_appended (rep_file r2) = base + offset r2"
    using d1(2,4,18) by (simp_all add: r2_def)
  have r2f: "options r2 = options r1" "index_block_options r2 = index_block_options r1"
    "index_block r2 = index_block r1" "last_key r2 = last_key r1" "closed r2"
    "filter_block r2 = filter_block r1" "rep_file r2 = rep_file r1" "offset r2 = offset r1"
    by (simp_all add: r2_def)
  obtain r3 fh where
    ff: "Finish_filter env r2 = (r3, fh)" and r3: "status r3 = OK" "sink_ok (rep_file r3)"
      "bytes_appended (rep_file r3) = base + offset r3"
    and r3f: "options r3 = options r2" "index_block_options r3 = index_block_options r2"
      "index_block r3 = index_block r2" "last_key r3 = last_key r2" "closed r3 = closed r2"
    and app3: "appended (rep_file r3) =
       appended (rep_file r2) @
         (case filter_block r2 of
            None \<Rightarrow> []
          | Some fb \<Rightarrow> [snd (FilterBlockBuilder_Finish fb),
                        block_trailer env (snd (FilterBlockBuilder_Finish fb)) kNoCompression])"
  proof (rule Finish_filter_ok[OF r2, of env])
    fix r3 fh
    assume a: "Finish_filter env r2 = (r3, fh)" "status r3 = OK" "sink_ok (rep_file r3)"
      "bytes_appended (rep_file r3) = base + offset r3"
      "options r3 = options r2" "index_block_options r3 = index_block_options r2"
      "index_block r3 = index_block r2" "last_key r3 = last_key r2" "closed r3 = closed r2"
      "appended (rep_file r3) =
       appended (rep_file r2) @
         (case filter_block r2 of
            None \<Rightarrow> []
          | Some fb \<Rightarrow> [snd (FilterBlockBuilder_Finish fb),
                        block_trailer env (snd (FilterBlockBuilder_Finish fb)) kNoCompression])"
    show thesis by (rule that[OF a])
  qed
  have i3: "1 \<le> block_restart_interval (options r3)" using d1(16) r3f(1) r2f(1) by simp
  obtain r4 mh c4 t4 where
    fm: "Finish_metaindex env r3 fh = Some (r4, mh)" and r4: "status r4 = OK" "sink_ok (rep_file r4)"
      "bytes_appended (rep_file r4) = base + offset r4"
    and fe4: "frame_eq r3 r4"
    and app4: "appended (rep_file r4) = appended (rep_file r3) @ [c4, t4]"
  proof (rule Finish_metaindex_ok[OF r3 i3, of env fh])
    fix r4 mh c4 t4
    assume a: "Finish_metaindex env r3 fh = Some (r4, mh)" "status r4 = OK" "sink_ok (rep_file r4)"
      "bytes_appended (rep_file r4) = base + offset r4" "frame_eq r3 r4"
      "appended (rep_file r4) = appended (rep_file r3) @ [c4, t4]"
    show thesis by (rule that[OF a])
  qed
  have r4f: "options r4 = options r1" "index_block_options r4 = index_block_options r1"
    "index_block r4 = index_block r1" "last_key r4 = last_key r1" "closed r4"
    using fe4 r3f r2f by (simp_all add: frame_eq_def)
  have p4: "\<not> bb_finished (index_block r4)" "bb_counter (index_block r4) \<le> 1"
    "bb_buffer (index_block r4) \<noteq> [] \<Longrightarrow>
       Compare (comparator (options r4)) (last_key r4) (bb_last_key (index_block r4)) > 0"
    "index_block_options r4 = (options r4)\<lparr> block_restart_interval := 1 \<rparr>"
    "comparator_ok (comparator (options r4))"
    using d1(12,13,14,15,17) r4f by simp_all
  obtain r5 ih c5 t5 where
    fi: "Finish_index env r4 = Some (r5, ih)" and r5: "status r5 = OK" "sink_ok (rep_file r5)"
      "bytes_appended (rep_file r5) = base + offset r5"
    and c5: "closed r5 = closed r4"
    and app5: "appended (rep_file r5) = appended (rep_file r4) @ [c5, t5]"
  proof (rule Finish_index_ok[OF r4 p4, of env])
    fix r5 ih c5 t5
    assume a: "Finish_index env r4 = Some (r5, ih)" "status r5 = OK" "sink_ok (rep_file r5)"
      "bytes_appended (rep_file r5) = base + offset r5" "closed r5 = closed r4"
      "appended (rep_file r5) = appended (rep_file r4) @ [c5, t5]"
    show thesis by (rule that[OF a])
  qed
  let ?r' = "Finish_footer r5 mh ih"
  note ft = Finish_footer_ok[OF r5, of mh ih]
  have fin: "Finish env r = Some ?r'"
    using f1 d1(1) ff fm fi by (simp add: Finish_def Let_def r2_def)
  have cl: "closed ?r'" using ft(4) c5 r4f(5) by simp
  have fil: "\<exists>m. written_filter_block ?r' = filter_block_bytes (final_filters pol log m) \<and>
           (\<forall>e \<in> set log. fst e div kFilterBase \<le> m)"
    if pol: "filter_policy (options r) = Some pol" and rep: "filter_rep log r" for pol
  proof -
    from pol d1(19) o1 obtain fb where fb: "filter_block r1 = Some fb" and fp: "fb_policy fb = pol"
      by (cases "filter_block r1") auto
    from rep fr1 fb have pa: "policy_appends (fb_policy fb)"
      and fr: "fb_rep log (offset r1 div kFilterBase) fb"
      by (simp_all add: filter_rep_def)
    have app: "appended (rep_file ?r') =
        appended (rep_file r1) @ [snd (FilterBlockBuilder_Finish fb),
           block_trailer env (snd (FilterBlockBuilder_Finish fb)) kNoCompression,
           c4, t4, c5, t5, Footer_EncodeTo mh ih]"
      using ft(3) app5 app4 app3 fb r2f(6,7) by simp
    have "written_filter_block ?r' = snd (FilterBlockBuilder_Finish fb)"
      unfolding written_filter_block_def app by (simp add: nth_append)
    also have "\<dots> = filter_block_bytes (final_filters pol log (offset r1 div kFilterBase))"
      using FilterBlockBuilder_Finish_rep[OF fr pa] fp by simp
    finally show ?thesis using fr by (auto simp: fb_rep_def)
  qed
  show ?thesis
    by (rule that[OF fin ft(1) cl ft(2)]) (rule fil)
qed

lemma build_good:
  assumes "1 \<le> block_restart_interval opt" and "comparator_ok (comparator opt)" and "sink_ok f"
    and "ascending (comparator opt) (keys_of ops)"
  obtains r' where "build env opt f ops = Some r'" "status r' = OK" "closed r'"
    "bytes_appended (rep_file r') = bytes_appended f + offset r'"
    "\<And>pol. filter_policy opt = Some pol \<Longrightarrow> policy_appends pol \<Longrightarrow>
       \<exists>m. written_filter_block r' =
             filter_block_bytes (final_filters pol (block_keys env (Rep_new opt f) ops) m) \<and>
           (\<forall>e \<in> set (block_keys env (Rep_new opt f) ops). fst e div kFilterBase \<le> m)"
proof -
  let ?r0 = "Rep_new opt f"
  let ?log = "block_keys env ?r0 ops"
  have g0: "good (bytes_appended f) ?r0" by (rule TableBuilder_new_good[OF assms(1,2,3)])
  have o0: "options ?r0 = opt" "num_entries ?r0 = 0" by (simp_all add: Rep_new_def)
  have a0: "ascending_from ?r0 ops" using assms(4) o0 by (simp add: ascending_from_def)
  from run_good[OF g0 a0, of env "[]"] obtain r1 where
    R: "run env ?r0 ops = Some r1 \<and> good (bytes_appended f) r1 \<and> options r1 = options ?r0 \<and>
        (filter_block r1 = None) = (filter_block ?r0 = None) \<and>
        (filter_rep [] ?r0 \<longrightarrow> filter_rep ([] @ ?log) r1)" ..
  note run1 = R[THEN conjunct1] and g1 = R[THEN conjunct2, THEN conjunct1]
    and o1 = R[THEN conjunct2, THEN conjunct2, THEN conjunct1]
    and fr1 = R[THEN conjunct2, THEN conjunct2, THEN conjunct2, THEN conjunct2]
  obtain r' where
    fin: "Finish env r1 = Some r'" and st: "status r' = OK" and cl: "closed r'"
    and by': "bytes_appended (rep_file r') = bytes_appended f + offset r'"
    and fil: "\<And>pol. filter_policy (options r1) = Some pol \<Longrightarrow> filter_rep ?log r1 \<Longrightarrow>
       \<exists>m. written_filter_block r' = filter_block_bytes (final_filters pol ?log m) \<and>
           (\<forall>e \<in> set ?log. fst e div kFilterBase \<le> m)"
  proof (rule Finish_good[OF g1, of env ?log])
    fix r'
    assume a: "Finish env r1 = Some r'" "status r' = OK" "closed r'"
      "bytes_appended (rep_file r') = bytes_appended f + offset r'"
      and b: "\<And>pol. filter_policy (options r1) = Some pol \<Longrightarrow> filter_rep ?log r1 \<Longrightarrow>
       \<exists>m. written_filter_block r' = filter_block_bytes (final_filters pol ?log m) \<and>
           (\<forall>e \<in> set ?log. fst e div kFilterBase \<le> m)"
    show thesis by (rule that[OF a]) (rule b)
  qed
  have b: "build env opt f ops = Some r'"
    using run1 fin by (simp add: build_def TableBuilder_new_eq)
  have fil': "\<exists>m. written_filter_block r' = filter_block_bytes (final_filters pol ?log m) \<and>
           (\<forall>e \<in> set ?log. fst e div kFilterBase \<le> m)"
    if "filter_policy opt = Some pol" "policy_appends pol" for pol
  proof -
    have "filter_rep [] ?r0" by (rule filter_rep_new[OF that])
    then have "filter_rep ?log r1" using fr1 by simp
    then show ?thesis using fil[of pol] that(1) o1 o0(1) by simp
  qed
  show ?thesis by (rule that[OF b st cl by']) (rule fil')
qed

section \<open>The filters of a finished table\<close>







lemma bytewise_compare_refl: "bytewise_compare a a = 0"
  by (induction a) simp_all

lemma bytewise_compare_trans:
  "bytewise_compare a b > 0 \<Longrightarrow> bytewise_compare b c > 0 \<Longrightarrow> bytewise_compare a c > 0"
proof (induction a b arbitrary: c rule: bytewise_compare.induct)
  case (1)
  then show ?case by simp
next
  case (2 y ys)
  then show ?case by simp
next
  case (3 x xs)
  then show ?case by (cases c) simp_all
next
  case (4 x xs y ys)
  then show ?case by (cases c) (auto split: if_splits)
qed

lemma bytewise_compare_trans':
  "bytewise_compare a b \<ge> 0 \<Longrightarrow> bytewise_compare b c > 0 \<Longrightarrow> bytewise_compare a c > 0"
proof (induction a b arbitrary: c rule: bytewise_compare.induct)
  case (1)
  then show ?case by simp
next
  case (2 y ys)
  then show ?case by simp
next
  case (3 x xs)
  then show ?case by (cases c) simp_all
next
  case (4 x xs y ys)
  then show ?case by (cases c) (auto split: if_splits)
qed

lemma comparator_ok_example: "comparator_ok example_comparator"
  unfolding comparator_ok_def example_comparator_def
  using bytewise_compare_trans bytewise_compare_trans'
  by (auto simp: bytewise_compare_refl)

section \<open>Whole tables\<close>

lemma length_big_value [simp]: "length big_value = 5000"
  by (simp add: big_value_def)

lemma example_legal:
  "1 \<le> block_restart_interval example_options" "comparator_ok (comparator example_options)"
  "sink_ok example_file"
  "1 \<le> block_restart_interval bloom_options" "comparator_ok (comparator bloom_options)"
  by (simp_all add: example_options_def bloom_options_def comparator_ok_example example_file_def sink_ok_def)




text \<open>
  Claim C4.  For a legal input (a restart interval of at least 1, a comparator that is an
  order and whose separators keep it, keys in strictly ascending order, any flushes in
  between, and a sink that reports no error) the build succeeds with status OK, and
  \<open>FileSize\<close> after \<open>Finish\<close> is the number of bytes that the builder handed to \<open>Append\<close>:
  the bytes of the file are those it held before plus \<open>FileSize\<close>.
\<close>

theorem file_size_is_bytes_appended:
  assumes "1 \<le> block_restart_interval opt" and "comparator_ok (comparator opt)" and "sink_ok f"
    and "ascending (comparator opt) (keys_of ops)"
  shows "\<exists>r'. build env opt f ops = Some r' \<and> status r' = OK \<and>
              bytes_appended (rep_file r') = bytes_appended f + FileSize r'"
proof -
  obtain r' where "build env opt f ops = Some r'" "status r' = OK"
    "bytes_appended (rep_file r') = bytes_appended f + offset r'"
  proof (rule build_good[OF assms, of env])
    fix r'
    assume a: "build env opt f ops = Some r'" "status r' = OK"
      "bytes_appended (rep_file r') = bytes_appended f + offset r'"
    show thesis by (rule that[OF a])
  qed
  then show ?thesis by (simp add: FileSize_def)
qed

theorem file_size_is_bytes_appended_witness:
  "\<exists>r'. build example_env example_options example_file
            [OpAdd [0x61] [0x31], OpFlush, OpAdd [0x62] [0x32]] = Some r' \<and>
        status r' = OK \<and> FileSize r' = 154 \<and>
        bytes_appended (rep_file r') = bytes_appended example_file + FileSize r'"
proof -
  let ?ops = "[OpAdd [0x61] [0x31], OpFlush, OpAdd [0x62] [0x32]]"
  define r1 where "r1 = the (build example_env example_options example_file ?ops)"
  have b: "build example_env example_options example_file ?ops = Some r1"
    and n: "FileSize r1 = 154"
    unfolding r1_def by (simp_all add: example_defs FileSize_def)
  have asc: "ascending (comparator example_options) (keys_of ?ops)"
    by (simp add: example_options_def example_comparator_def)
  from file_size_is_bytes_appended[OF example_legal(1,2,3) asc, of example_env]
  have "status r1 = OK \<and> bytes_appended (rep_file r1) = bytes_appended example_file + FileSize r1"
    unfolding b by simp
  then show ?thesis using b n by simp
qed







end
